theory Spec2Isabelle
  imports Main "HOL-Library.Multiset" "HOL-Library.Signed_Division" "HOL-Library.Word"
begin

section \<open>Arrays of C ints\<close>

text \<open>
  The searching and sorting demos take \<^verbatim>\<open>int arr[]\<close> together with an \<^verbatim>\<open>int size\<close>.
  An array is a list of its elements; elements are only compared and copied, never
  computed with, so they are mathematical integers. Indices are C ints that stay between
  \<open>-1\<close> and \<open>size\<close>, so index arithmetic never leaves the range of \<^verbatim>\<open>int\<close> and
  is written without wrap-around. A read or write outside the array is undefined
  behaviour in C; the model stops with the error \<open>OutOfBounds\<close> there instead of
  going on with an unspecified value.
\<close>

datatype c_error = OutOfBounds

definition c_read :: "int list \<Rightarrow> int \<Rightarrow> c_error + int" where
  "c_read arr i = (if 0 \<le> i \<and> i < int (length arr) then Inr (arr ! nat i) else Inl OutOfBounds)"

definition c_write :: "int list \<Rightarrow> int \<Rightarrow> int \<Rightarrow> c_error + int list" where
  "c_write arr i v =
     (if 0 \<le> i \<and> i < int (length arr) then Inr (arr[nat i := v]) else Inl OutOfBounds)"

section \<open>searching.c\<close>

subsection \<open>linear\_search\<close>

text \<open>
  \<^verbatim>\<open>for (int i = 0; i < size; i++) { if (arr[i] == target) return i; } return -1;\<close>
\<close>

function linear_search_loop :: "int list \<Rightarrow> int \<Rightarrow> int \<Rightarrow> int \<Rightarrow> c_error + int" where
  "linear_search_loop arr sz target i =
     (if i < sz then
        (case c_read arr i of
           Inl e \<Rightarrow> Inl e
         | Inr x \<Rightarrow> if x = target then Inr i
                    else linear_search_loop arr sz target (i + 1))
      else Inr (- 1))"
  by pat_completeness auto
termination
  by (relation "measure (\<lambda>(arr, sz, target, i). nat (sz - i))") auto

definition linear_search :: "int list \<Rightarrow> int \<Rightarrow> int \<Rightarrow> c_error + int" where
  "linear_search arr sz target = linear_search_loop arr sz target 0"

subsection \<open>binary\_search and binary\_search\_recursive\<close>

text \<open>
  C division truncates towards zero: \<^verbatim>\<open>(right - left) / 2\<close> is \<open>sdiv\<close>. The iterative
  search is a loop on \<open>left\<close> and \<open>right\<close>; its interval shrinks at every step, which
  is its termination proof. The recursive search is defined as a partial function, so that
  returning at all is a property to prove and not a consequence of the definition.
\<close>

lemma sdiv2_nonneg: "0 \<le> d \<Longrightarrow> d sdiv (2::int) = d div 2"
  by (cases "d = 0") (simp_all add: signed_divide_int_def)

function binary_search_loop :: "int list \<Rightarrow> int \<Rightarrow> int \<Rightarrow> int \<Rightarrow> c_error + int" where
  "binary_search_loop arr target left right =
     (if left \<le> right then
        (let mid = left + (right - left) sdiv 2 in
         case c_read arr mid of
           Inl e \<Rightarrow> Inl e
         | Inr x \<Rightarrow> if x = target then Inr mid
                    else if x < target then binary_search_loop arr target (mid + 1) right
                    else binary_search_loop arr target left (mid - 1))
      else Inr (- 1))"
  by pat_completeness auto
termination
  by (relation "measure (\<lambda>(arr, target, left, right). nat (right - left + 1))")
     (auto simp: sdiv2_nonneg)

definition binary_search :: "int list \<Rightarrow> int \<Rightarrow> int \<Rightarrow> c_error + int" where
  "binary_search arr sz target = binary_search_loop arr target 0 (sz - 1)"

partial_function (option) binary_search_recursive ::
    "int list \<Rightarrow> int \<Rightarrow> int \<Rightarrow> int \<Rightarrow> (c_error + int) option" where
  "binary_search_recursive arr left right target =
     (if left > right then Some (Inr (- 1))
      else
        (let mid = left + (right - left) sdiv 2 in
         case c_read arr mid of
           Inl e \<Rightarrow> Some (Inl e)
         | Inr x \<Rightarrow> if x = target then Some (Inr mid)
                    else if x < target then binary_search_recursive arr (mid + 1) right target
                    else binary_search_recursive arr left (mid - 1) target))"

declare binary_search_recursive.simps [code]

section \<open>sorting.c\<close>

text \<open>
  The three sorts work in place on \<^verbatim>\<open>arr\<close>; the model returns the final array, or
  \<open>OutOfBounds\<close> if some access left the array. The progress lines they print are
  not modelled.
\<close>

subsection \<open>bubble\_sort\<close>

text \<open>
  The inner loop \<^verbatim>\<open>for (j = 0; j < size - i - 1; j++)\<close> swaps \<^verbatim>\<open>arr[j]\<close> and
  \<^verbatim>\<open>arr[j + 1]\<close> when they are out of order and records that in \<^verbatim>\<open>swapped\<close>.
\<close>

function bubble_sort_inner ::
    "int list \<Rightarrow> int \<Rightarrow> int \<Rightarrow> int \<Rightarrow> bool \<Rightarrow> c_error + (int list \<times> bool)" where
  "bubble_sort_inner arr sz i j swapped =
     (if j < sz - i - 1 then
        (case c_read arr j of
           Inl e \<Rightarrow> Inl e
         | Inr a \<Rightarrow>
            (case c_read arr (j + 1) of
               Inl e \<Rightarrow> Inl e
             | Inr b \<Rightarrow>
                if a > b then
                  (case c_write arr j b of
                     Inl e \<Rightarrow> Inl e
                   | Inr arr1 \<Rightarrow>
                      (case c_write arr1 (j + 1) a of
                         Inl e \<Rightarrow> Inl e
                       | Inr arr2 \<Rightarrow> bubble_sort_inner arr2 sz i (j + 1) True))
                else bubble_sort_inner arr sz i (j + 1) swapped))
      else Inr (arr, swapped))"
  by pat_completeness auto
termination
  by (relation "measure (\<lambda>(arr, sz, i, j, swapped). nat (sz - i - 1 - j))") auto

text \<open>
  The outer loop \<^verbatim>\<open>for (i = 0; i < size - 1; i++)\<close> runs one pass and leaves early
  (\<^verbatim>\<open>break\<close>) after a pass without a swap.
\<close>

function bubble_sort_outer :: "int list \<Rightarrow> int \<Rightarrow> int \<Rightarrow> c_error + int list" where
  "bubble_sort_outer arr sz i =
     (if i < sz - 1 then
        (case bubble_sort_inner arr sz i 0 False of
           Inl e \<Rightarrow> Inl e
         | Inr (arr', swapped) \<Rightarrow>
            if \<not> swapped then Inr arr' else bubble_sort_outer arr' sz (i + 1))
      else Inr arr)"
  by pat_completeness auto
termination
  by (relation "measure (\<lambda>(arr, sz, i). nat (sz - 1 - i))") auto

definition bubble_sort :: "int list \<Rightarrow> int \<Rightarrow> c_error + int list" where
  "bubble_sort arr sz = bubble_sort_outer arr sz 0"

subsection \<open>selection\_sort\<close>

text \<open>
  The inner loop \<^verbatim>\<open>for (j = i + 1; j < size; j++)\<close> finds the index of the minimum of
  the unsorted part.
\<close>

function selection_sort_inner :: "int list \<Rightarrow> int \<Rightarrow> int \<Rightarrow> int \<Rightarrow> c_error + int" where
  "selection_sort_inner arr sz min_idx j =
     (if j < sz then
        (case c_read arr j of
           Inl e \<Rightarrow> Inl e
         | Inr a \<Rightarrow>
            (case c_read arr min_idx of
               Inl e \<Rightarrow> Inl e
             | Inr b \<Rightarrow>
                if a < b then selection_sort_inner arr sz j (j + 1)
                else selection_sort_inner arr sz min_idx (j + 1)))
      else Inr min_idx)"
  by pat_completeness auto
termination
  by (relation "measure (\<lambda>(arr, sz, min_idx, j). nat (sz - j))") auto

function selection_sort_outer :: "int list \<Rightarrow> int \<Rightarrow> int \<Rightarrow> c_error + int list" where
  "selection_sort_outer arr sz i =
     (if i < sz - 1 then
        (case selection_sort_inner arr sz i (i + 1) of
           Inl e \<Rightarrow> Inl e
         | Inr min_idx \<Rightarrow>
            if min_idx \<noteq> i then
              (case c_read arr i of
                 Inl e \<Rightarrow> Inl e
               | Inr temp \<Rightarrow>
                  (case c_read arr min_idx of
                     Inl e \<Rightarrow> Inl e
                   | Inr m \<Rightarrow>
                      (case c_write arr i m of
                         Inl e \<Rightarrow> Inl e
                       | Inr arr1 \<Rightarrow>
                          (case c_write arr1 min_idx temp of
                             Inl e \<Rightarrow> Inl e
                           | Inr arr2 \<Rightarrow> selection_sort_outer arr2 sz (i + 1)))))
            else selection_sort_outer arr sz (i + 1))
      else Inr arr)"
  by pat_completeness auto
termination
  by (relation "measure (\<lambda>(arr, sz, i). nat (sz - 1 - i))") auto

definition selection_sort :: "int list \<Rightarrow> int \<Rightarrow> c_error + int list" where
  "selection_sort arr sz = selection_sort_outer arr sz 0"

subsection \<open>insertion\_sort\<close>

text \<open>
  The inner loop \<^verbatim>\<open>while (j >= 0 && arr[j] > key)\<close> shifts the larger elements one
  place to the right; \<^verbatim>\<open>&&\<close> does not read \<^verbatim>\<open>arr[j]\<close> when \<^verbatim>\<open>j < 0\<close>. It returns
  the array and the final \<^verbatim>\<open>j\<close>.
\<close>

function insertion_sort_inner :: "int list \<Rightarrow> int \<Rightarrow> int \<Rightarrow> c_error + (int list \<times> int)" where
  "insertion_sort_inner arr key j =
     (if j \<ge> 0 then
        (case c_read arr j of
           Inl e \<Rightarrow> Inl e
         | Inr a \<Rightarrow>
            if a > key then
              (case c_write arr (j + 1) a of
                 Inl e \<Rightarrow> Inl e
               | Inr arr1 \<Rightarrow> insertion_sort_inner arr1 key (j - 1))
            else Inr (arr, j))
      else Inr (arr, j))"
  by pat_completeness auto
termination
  by (relation "measure (\<lambda>(arr, key, j). nat (j + 1))") auto

function insertion_sort_outer :: "int list \<Rightarrow> int \<Rightarrow> int \<Rightarrow> c_error + int list" where
  "insertion_sort_outer arr sz i =
     (if i < sz then
        (case c_read arr i of
           Inl e \<Rightarrow> Inl e
         | Inr key \<Rightarrow>
            (case insertion_sort_inner arr key (i - 1) of
               Inl e \<Rightarrow> Inl e
             | Inr (arr1, j) \<Rightarrow>
                (case c_write arr1 (j + 1) key of
                   Inl e \<Rightarrow> Inl e
                 | Inr arr2 \<Rightarrow> insertion_sort_outer arr2 sz (i + 1))))
      else Inr arr)"
  by pat_completeness auto
termination
  by (relation "measure (\<lambda>(arr, sz, i). nat (sz - i))") auto

definition insertion_sort :: "int list \<Rightarrow> int \<Rightarrow> c_error + int list" where
  "insertion_sort arr sz = insertion_sort_outer arr sz 1"

section \<open>ex02\_linked\_list.c\<close>

text \<open>
  Nodes live in a heap: a partial map from addresses to nodes, where an address that
  maps to \<open>None\<close> is not allocated. A \<^verbatim>\<open>Node *\<close> is an optional address,
  \<open>None\<close> being \<^verbatim>\<open>NULL\<close>. Following a pointer to an unallocated address is undefined
  behaviour in C and the error \<open>InvalidPointer\<close> here. \<^verbatim>\<open>free\<close> removes the address
  from the heap. The field \<^verbatim>\<open>next\<close> of a node is named \<open>nxt\<close>. Each loop walks the
  \<^verbatim>\<open>next\<close> pointers and need not end on a cyclic structure, so it is a partial
  function: \<open>None\<close> means that the call does not return.
\<close>

type_synonym addr = nat

record Node =
  data :: int
  nxt :: "addr option"

type_synonym heap = "addr \<rightharpoonup> Node"

datatype ptr_error = InvalidPointer

subsection \<open>create\_node\<close>

text \<open>
  \<^verbatim>\<open>malloc\<close> either fails (\<open>None\<close>) or returns an address that was not allocated
  before; its outcome is a parameter of the model.
\<close>

definition create_node :: "heap \<Rightarrow> addr option \<Rightarrow> int \<Rightarrow> heap \<times> addr option" where
  "create_node h malloc_result d =
     (case malloc_result of
        None \<Rightarrow> (h, None)
      | Some new_node \<Rightarrow> (h(new_node \<mapsto> \<lparr>data = d, nxt = None\<rparr>), Some new_node))"

subsection \<open>delete\_node\<close>

text \<open>
  The search loop
  \<^verbatim>\<open>while (current->next != NULL && current->next->data != data) current = current->next;\<close>
  returns the final \<^verbatim>\<open>current\<close>.
\<close>

partial_function (option) delete_node_search ::
    "heap \<Rightarrow> int \<Rightarrow> addr \<Rightarrow> (ptr_error + addr) option" where
  "delete_node_search h d current =
     (case h current of
        None \<Rightarrow> Some (Inl InvalidPointer)
      | Some cn \<Rightarrow>
         (case nxt cn of
            None \<Rightarrow> Some (Inr current)
          | Some n \<Rightarrow>
             (case h n of
                None \<Rightarrow> Some (Inl InvalidPointer)
              | Some nn \<Rightarrow>
                 if data nn \<noteq> d then delete_node_search h d n
                 else Some (Inr current))))"

declare delete_node_search.simps [code]

text \<open>
  \<open>delete_node\<close> takes the heap and \<^verbatim>\<open>*head\<close> and returns the \<^verbatim>\<open>bool\<close> result with
  the new heap and the new \<^verbatim>\<open>*head\<close>.
\<close>

definition delete_node ::
    "heap \<Rightarrow> addr option \<Rightarrow> int \<Rightarrow> (ptr_error + bool \<times> heap \<times> addr option) option" where
  "delete_node h head d =
     (case head of
        None \<Rightarrow> Some (Inr (False, h, head))
      | Some hp \<Rightarrow>
         (case h hp of
            None \<Rightarrow> Some (Inl InvalidPointer)
          | Some hn \<Rightarrow>
             if data hn = d then Some (Inr (True, h(hp := None), nxt hn))
             else
               (case delete_node_search h d hp of
                  None \<Rightarrow> None
                | Some (Inl e) \<Rightarrow> Some (Inl e)
                | Some (Inr current) \<Rightarrow>
                   (case h current of
                      None \<Rightarrow> Some (Inl InvalidPointer)
                    | Some cn \<Rightarrow>
                       (case nxt cn of
                          None \<Rightarrow> Some (Inr (False, h, head))
                        | Some temp \<Rightarrow>
                           (case h temp of
                              None \<Rightarrow> Some (Inl InvalidPointer)
                            | Some tn \<Rightarrow>
                               Some (Inr (True,
                                 (h(current \<mapsto> cn\<lparr>nxt := nxt tn\<rparr>))(temp := None),
                                 head))))))))"

subsection \<open>reverse\_list\<close>

text \<open>
  \<^verbatim>\<open>while (current != NULL) { next = current->next; current->next = prev;
     prev = current; current = next; }  *head = prev;\<close>
\<close>

partial_function (option) reverse_list_loop ::
    "heap \<Rightarrow> addr option \<Rightarrow> addr option \<Rightarrow> (ptr_error + heap \<times> addr option) option" where
  "reverse_list_loop h prev current =
     (case current of
        None \<Rightarrow> Some (Inr (h, prev))
      | Some c \<Rightarrow>
         (case h c of
            None \<Rightarrow> Some (Inl InvalidPointer)
          | Some cn \<Rightarrow> reverse_list_loop (h(c \<mapsto> cn\<lparr>nxt := prev\<rparr>)) (Some c) (nxt cn)))"

declare reverse_list_loop.simps [code]

definition reverse_list :: "heap \<Rightarrow> addr option \<Rightarrow> (ptr_error + heap \<times> addr option) option" where
  "reverse_list h head = reverse_list_loop h None head"

subsection \<open>Lists in the heap\<close>

text \<open>
  \<open>path_at h p as q\<close>: starting at pointer \<open>p\<close> and following \<^verbatim>\<open>next\<close>, the nodes
  visited are exactly those at the addresses \<open>as\<close>, in this order, and the \<^verbatim>\<open>next\<close>
  pointer of the last one is \<open>q\<close>. A singly linked list with head \<open>p\<close> is a path that
  ends in \<^verbatim>\<open>NULL\<close>; \<open>node_values\<close> is the sequence of values it holds.
\<close>

fun path_at :: "heap \<Rightarrow> addr option \<Rightarrow> addr list \<Rightarrow> addr option \<Rightarrow> bool" where
  "path_at h p [] q = (p = q)"
| "path_at h p (a # as) q =
     (p = Some a \<and> (case h a of None \<Rightarrow> False | Some nd \<Rightarrow> path_at h (nxt nd) as q))"

definition list_at :: "heap \<Rightarrow> addr option \<Rightarrow> addr list \<Rightarrow> bool" where
  "list_at h p as = path_at h p as None"

definition node_values :: "heap \<Rightarrow> addr list \<Rightarrow> int list" where
  "node_values h as = map (\<lambda>a. data (the (h a))) as"

section \<open>ex01\_dynamic\_array.c\<close>

text \<open>
  The struct holds the block \<^verbatim>\<open>data\<close>, the number of elements \<^verbatim>\<open>size\<close> and the
  allocated \<^verbatim>\<open>capacity\<close>; the fields are named \<open>arr_data\<close>, \<open>arr_size\<close> and
  \<open>arr_capacity\<close>. \<^verbatim>\<open>size_t\<close> is a 64-bit unsigned integer, so \<^verbatim>\<open>capacity * 2\<close> wraps.
  The block is the memory from \<^verbatim>\<open>data\<close> on, one \<^verbatim>\<open>int\<close> per index; as in C, a store
  \<^verbatim>\<open>data[i] = v\<close> is not checked against the capacity. A \<^verbatim>\<open>DynamicArray *\<close> is an
  optional struct, \<open>None\<close> being \<^verbatim>\<open>NULL\<close>. Whether \<^verbatim>\<open>malloc\<close> and \<^verbatim>\<open>realloc\<close>
  succeed is not decided by the program: each outcome is a parameter. Every operation
  returns its C result together with the struct as it leaves it.
\<close>

record DynamicArray =
  arr_data :: "nat \<Rightarrow> int"
  arr_size :: "64 word"
  arr_capacity :: "64 word"

text \<open>
  \<open>create_array\<close>: the first \<^verbatim>\<open>malloc\<close> gives the struct, the second the block (with
  whatever contents \<open>block\<close> it has); if either fails the result is \<^verbatim>\<open>NULL\<close>.
\<close>

definition create_array :: "64 word \<Rightarrow> bool \<Rightarrow> (nat \<Rightarrow> int) option \<Rightarrow> DynamicArray option" where
  "create_array initial_capacity malloc_struct malloc_data =
     (if \<not> malloc_struct then None
      else
        (case malloc_data of
           None \<Rightarrow> None
         | Some block \<Rightarrow>
            Some \<lparr>arr_data = block, arr_size = 0, arr_capacity = initial_capacity\<rparr>))"

text \<open>\<open>resize_array\<close>: \<^verbatim>\<open>realloc\<close> keeps the contents of the block.\<close>

definition resize_array ::
    "DynamicArray option \<Rightarrow> 64 word \<Rightarrow> bool \<Rightarrow> bool \<times> DynamicArray option" where
  "resize_array arr new_capacity realloc_ok =
     (case arr of
        None \<Rightarrow> (False, arr)
      | Some a \<Rightarrow>
         if new_capacity < arr_size a then (False, arr)
         else if \<not> realloc_ok then (False, arr)
         else (True, Some (a\<lparr>arr_capacity := new_capacity\<rparr>)))"

definition append :: "DynamicArray option \<Rightarrow> int \<Rightarrow> bool \<Rightarrow> bool \<times> DynamicArray option" where
  "append arr v realloc_ok =
     (case arr of
        None \<Rightarrow> (False, arr)
      | Some a \<Rightarrow>
         (case (if arr_size a \<ge> arr_capacity a
                then resize_array arr (arr_capacity a * 2) realloc_ok
                else (True, arr)) of
            (True, Some a1) \<Rightarrow>
              (True, Some (a1\<lparr>arr_data := (arr_data a1)(unat (arr_size a1) := v),
                              arr_size := arr_size a1 + 1\<rparr>))
          | _ \<Rightarrow> (False, arr)))"

text \<open>\<^verbatim>\<open>for (size_t i = arr->size; i > index; i--) arr->data[i] = arr->data[i - 1];\<close>\<close>

function insert_shift :: "(nat \<Rightarrow> int) \<Rightarrow> 64 word \<Rightarrow> 64 word \<Rightarrow> nat \<Rightarrow> int" where
  "insert_shift d i index =
     (if i > index then insert_shift (d(unat i := d (unat (i - 1)))) (i - 1) index else d)"
  by pat_completeness auto
termination
proof (relation "measure (\<lambda>(d, i, index). unat i)")
  show "wf (measure (\<lambda>(d, i, index). unat i))" by simp
next
  fix d :: "nat \<Rightarrow> int" and i index :: "64 word"
  assume "index < i"
  then have "i \<noteq> 0" by auto
  then have "unat (i - 1) < unat i"
    by (simp add: unat_minus_one unat_gt_0)
  then show "((d(unat i := d (unat (i - 1))), i - 1, index), (d, i, index))
      \<in> measure (\<lambda>(d, i, index). unat i)"
    by simp
qed

definition insert :: "DynamicArray option \<Rightarrow> 64 word \<Rightarrow> int \<Rightarrow> bool \<Rightarrow> bool \<times> DynamicArray option" where
  "insert arr index v realloc_ok =
     (case arr of
        None \<Rightarrow> (False, arr)
      | Some a \<Rightarrow>
         if index > arr_size a then (False, arr)
         else
           (case (if arr_size a \<ge> arr_capacity a
                  then resize_array arr (arr_capacity a * 2) realloc_ok
                  else (True, arr)) of
              (True, Some a1) \<Rightarrow>
                (True, Some (a1\<lparr>arr_data := (insert_shift (arr_data a1) (arr_size a1) index)
                                              (unat index := v),
                                arr_size := arr_size a1 + 1\<rparr>))
            | _ \<Rightarrow> (False, arr)))"

text \<open>\<^verbatim>\<open>for (size_t i = index; i < arr->size - 1; i++) arr->data[i] = arr->data[i + 1];\<close>\<close>

function delete_shift :: "(nat \<Rightarrow> int) \<Rightarrow> 64 word \<Rightarrow> 64 word \<Rightarrow> nat \<Rightarrow> int" where
  "delete_shift d i sz =
     (if i < sz - 1 then delete_shift (d(unat i := d (unat (i + 1)))) (i + 1) sz else d)"
  by pat_completeness auto
termination
proof (relation "measure (\<lambda>(d, i, sz). unat (sz - 1) - unat i)")
  show "wf (measure (\<lambda>(d, i, sz). unat (sz - 1) - unat i))" by simp
next
  fix d :: "nat \<Rightarrow> int" and i sz :: "64 word"
  assume less: "i < sz - 1"
  then have "unat i < unat (sz - 1)" by (simp add: word_less_nat_alt)
  moreover have "unat (sz - 1) < 2 ^ LENGTH(64)" by (rule unsigned_less)
  ultimately have "unat i + unat (1 :: 64 word) < 2 ^ LENGTH(64)" by simp
  then have "unat (i + 1) = unat i + 1"
    by (simp only: unat_add_lem [THEN iffD1] unat_1)
  with \<open>unat i < unat (sz - 1)\<close>
  show "((d(unat i := d (unat (i + 1))), i + 1, sz), (d, i, sz))
      \<in> measure (\<lambda>(d, i, sz). unat (sz - 1) - unat i)"
    by simp
qed

text \<open>
  \<open>delete\<close> ignores the result of \<open>resize_array\<close>, as the source does: a failed
  \<^verbatim>\<open>realloc\<close> leaves the capacity as it was.
\<close>

definition delete :: "DynamicArray option \<Rightarrow> 64 word \<Rightarrow> bool \<Rightarrow> bool \<times> DynamicArray option" where
  "delete arr index realloc_ok =
     (case arr of
        None \<Rightarrow> (False, arr)
      | Some a \<Rightarrow>
         if index \<ge> arr_size a then (False, arr)
         else
           (let a1 = a\<lparr>arr_data := delete_shift (arr_data a) index (arr_size a),
                        arr_size := arr_size a - 1\<rparr>
            in if arr_capacity a1 > 4 \<and> arr_size a1 < arr_capacity a1 div 4
               then (True, snd (resize_array (Some a1) (arr_capacity a1 div 2) realloc_ok))
               else (True, Some a1)))"

text \<open>
  \<open>get\<close>: \<open>value_ok\<close> says that the \<^verbatim>\<open>int *value\<close> passed is not \<^verbatim>\<open>NULL\<close>; the second
  component is what is stored through it.
\<close>

definition get :: "DynamicArray option \<Rightarrow> 64 word \<Rightarrow> bool \<Rightarrow> bool \<times> int option" where
  "get arr index value_ok =
     (case arr of
        None \<Rightarrow> (False, None)
      | Some a \<Rightarrow>
         if index \<ge> arr_size a \<or> \<not> value_ok then (False, None)
         else (True, Some (arr_data a (unat index))))"

text \<open>The value of a C \<^verbatim>\<open>bool\<close> as an integer: \<^verbatim>\<open>false\<close> is 0 and \<^verbatim>\<open>true\<close> is 1.\<close>

definition c_bool :: "bool \<Rightarrow> int" where
  "c_bool b = (if b then 1 else 0)"

section \<open>array\_operations.c\<close>

text \<open>
  \<open>insert_element\<close> and \<open>delete_element\<close> work on a caller's array of \<^verbatim>\<open>MAX_SIZE\<close> ints
  of which the first \<^verbatim>\<open>size\<close> are in use; they return the new size, and the old size
  when the position is invalid. The model returns the array with it.
\<close>

definition MAX_SIZE :: int where
  "MAX_SIZE = 100"

text \<open>\<^verbatim>\<open>for (int i = size; i > position; i--) arr[i] = arr[i - 1];\<close>\<close>

function insert_element_shift :: "int list \<Rightarrow> int \<Rightarrow> int \<Rightarrow> c_error + int list" where
  "insert_element_shift arr i position =
     (if i > position then
        (case c_read arr (i - 1) of
           Inl e \<Rightarrow> Inl e
         | Inr x \<Rightarrow>
            (case c_write arr i x of
               Inl e \<Rightarrow> Inl e
             | Inr arr1 \<Rightarrow> insert_element_shift arr1 (i - 1) position))
      else Inr arr)"
  by pat_completeness auto
termination
  by (relation "measure (\<lambda>(arr, i, position). nat (i - position))") auto

definition insert_element :: "int list \<Rightarrow> int \<Rightarrow> int \<Rightarrow> int \<Rightarrow> c_error + int list \<times> int" where
  "insert_element arr sz element position =
     (if position < 0 \<or> position > sz then Inr (arr, sz)
      else if sz \<ge> MAX_SIZE then Inr (arr, sz)
      else
        (case insert_element_shift arr sz position of
           Inl e \<Rightarrow> Inl e
         | Inr arr1 \<Rightarrow>
            (case c_write arr1 position element of
               Inl e \<Rightarrow> Inl e
             | Inr arr2 \<Rightarrow> Inr (arr2, sz + 1))))"

text \<open>\<^verbatim>\<open>for (int i = position; i < size - 1; i++) arr[i] = arr[i + 1];\<close>\<close>

function delete_element_shift :: "int list \<Rightarrow> int \<Rightarrow> int \<Rightarrow> c_error + int list" where
  "delete_element_shift arr sz i =
     (if i < sz - 1 then
        (case c_read arr (i + 1) of
           Inl e \<Rightarrow> Inl e
         | Inr x \<Rightarrow>
            (case c_write arr i x of
               Inl e \<Rightarrow> Inl e
             | Inr arr1 \<Rightarrow> delete_element_shift arr1 sz (i + 1)))
      else Inr arr)"
  by pat_completeness auto
termination
  by (relation "measure (\<lambda>(arr, sz, i). nat (sz - 1 - i))") auto

definition delete_element :: "int list \<Rightarrow> int \<Rightarrow> int \<Rightarrow> c_error + int list \<times> int" where
  "delete_element arr sz position =
     (if position < 0 \<or> position \<ge> sz then Inr (arr, sz)
      else
        (case delete_element_shift arr sz position of
           Inl e \<Rightarrow> Inl e
         | Inr arr1 \<Rightarrow> Inr (arr1, sz - 1)))"

section \<open>ex03\_file\_copy.c\<close>

text \<open>
  \<open>copy_file\<close> talks to the C library and the file system. What they answer is the
  environment of the call: whether \<^verbatim>\<open>malloc\<close> gives the buffer, whether the source opens
  and which bytes can then be read from it, whether reading ends in an error instead of
  the end of the file, the size that \<^verbatim>\<open>ftell\<close> reports, whether the destination opens,
  and the count that each call of \<^verbatim>\<open>fwrite\<close> returns: \<open>fwrite_result env k n\<close> is what
  the \<open>k\<close>-th call returns when asked to write \<open>n\<close> bytes. The library buffers its
  output, so a device that is full need not show in this count; the source does not look
  at the result of \<^verbatim>\<open>fclose\<close>. The result is the \<^verbatim>\<open>int\<close> returned and the bytes that
  \<^verbatim>\<open>fwrite\<close> accepted (\<open>None\<close> when the destination was never opened). The progress
  dots are not modelled.
\<close>

record copy_env =
  buffer_malloc :: bool
  source_open :: "8 word list option"
  source_read_error :: bool
  source_size :: int
  dest_open :: bool
  fwrite_result :: "nat \<Rightarrow> nat \<Rightarrow> nat"

definition BUFFER_SIZE :: nat where
  "BUFFER_SIZE = 8192"

text \<open>
  \<^verbatim>\<open>while ((bytes_read = fread(buffer, 1, BUFFER_SIZE, source)) > 0)\<close>: the loop returns
  whether every \<^verbatim>\<open>fwrite\<close> returned the size of its chunk, and the bytes accepted;
  \<open>k\<close> counts the calls of \<^verbatim>\<open>fwrite\<close>.
\<close>

function copy_chunks ::
    "(nat \<Rightarrow> nat \<Rightarrow> nat) \<Rightarrow> 8 word list \<Rightarrow> nat \<Rightarrow> 8 word list \<Rightarrow> bool \<times> 8 word list" where
  "copy_chunks fwrite remaining k written =
     (let chunk = take BUFFER_SIZE remaining; bytes_read = length chunk in
      if bytes_read > 0 then
        (let bytes_written = fwrite k bytes_read in
         if bytes_written \<noteq> bytes_read then (False, written @ take bytes_written chunk)
         else copy_chunks fwrite (drop BUFFER_SIZE remaining) (k + 1) (written @ chunk))
      else (True, written))"
  by pat_completeness auto
termination
  by (relation "measure (\<lambda>(fwrite, remaining, k, written). length remaining)")
     (auto simp: BUFFER_SIZE_def)

definition copy_file :: "copy_env \<Rightarrow> int \<times> 8 word list option" where
  "copy_file env =
     (if \<not> buffer_malloc env then (- 1, None)
      else
        (case source_open env of
           None \<Rightarrow> (- 1, None)
         | Some bytes \<Rightarrow>
            if source_size env < 0 then (- 1, None)
            else if \<not> dest_open env then (- 1, None)
            else
              (case copy_chunks (fwrite_result env) bytes 0 [] of
                 (False, written) \<Rightarrow> (- 1, Some written)
               | (True, written) \<Rightarrow>
                  if source_read_error env then (- 1, Some written)
                  else (0, Some written))))"

section \<open>math\_utils.c\<close>

text \<open>
  \<^verbatim>\<open>int\<close> is a 32-bit two's complement integer, modelled as a 32-bit word read with
  \<open>sint\<close>. Overflow of \<^verbatim>\<open>+\<close> and \<^verbatim>\<open>*\<close> (undefined behaviour in C) wraps around, as the word
  operations do. \<^verbatim>\<open>%\<close> is the remainder of the division that truncates towards zero,
  \<open>smod\<close> on the signed values; with a zero divisor it is the error \<open>DivisionByZero\<close>.
\<close>

datatype arith_error = DivisionByZero

definition c_rem :: "32 word \<Rightarrow> 32 word \<Rightarrow> arith_error + 32 word" where
  "c_rem a b = (if b = 0 then Inl DivisionByZero else Inr (word_of_int (sint a smod sint b)))"

subsection \<open>divide\<close>

text \<open>
  \<^verbatim>\<open>double\<close> arithmetic is not computed here: the type of doubles \<open>'d\<close>, the conversion
  \<^verbatim>\<open>(double)\<close> from \<^verbatim>\<open>int\<close>, the constant \<open>0.0\<close> and the division of two doubles are
  parameters. In \<^verbatim>\<open>(double)a / b\<close> the divisor is \<^verbatim>\<open>b\<close> converted to \<^verbatim>\<open>double\<close>, which is
  zero exactly when \<^verbatim>\<open>b\<close> is; \<open>double_div\<close> is the division as the source writes it, with the
  division by zero as an error.
\<close>

record 'd double_ops =
  from_int :: "32 word \<Rightarrow> 'd"
  zero :: 'd
  quotient :: "'d \<Rightarrow> 'd \<Rightarrow> 'd"

definition double_div :: "'d double_ops \<Rightarrow> 'd \<Rightarrow> 32 word \<Rightarrow> arith_error + 'd" where
  "double_div ops x b =
     (if b = 0 then Inl DivisionByZero else Inr (quotient ops x (from_int ops b)))"

definition divide :: "'d double_ops \<Rightarrow> 32 word \<Rightarrow> 32 word \<Rightarrow> arith_error + 'd" where
  "divide ops a b = (if b = 0 then Inr (zero ops) else double_div ops (from_int ops a) b)"

subsection \<open>is\_prime and next\_prime\<close>

text \<open>
  \<^verbatim>\<open>for (int i = 5; i * i <= n; i += 6) if (n % i == 0 || n % (i + 2) == 0) return false;\<close>
  \<^verbatim>\<open>||\<close> does not evaluate its second operand when the first is true. The loop is a
  partial function: \<open>None\<close> means that it does not return.
\<close>

partial_function (option) is_prime_loop :: "32 word \<Rightarrow> 32 word \<Rightarrow> (arith_error + bool) option" where
  "is_prime_loop n i =
     (if sint (i * i) \<le> sint n then
        (case c_rem n i of
           Inl e \<Rightarrow> Some (Inl e)
         | Inr r1 \<Rightarrow>
            if r1 = 0 then Some (Inr False)
            else
              (case c_rem n (i + 2) of
                 Inl e \<Rightarrow> Some (Inl e)
               | Inr r2 \<Rightarrow>
                  if r2 = 0 then Some (Inr False)
                  else is_prime_loop n (i + 6)))
      else Some (Inr True))"

declare is_prime_loop.simps [code]

definition is_prime :: "32 word \<Rightarrow> (arith_error + bool) option" where
  "is_prime n =
     (if sint n \<le> 1 then Some (Inr False)
      else if sint n \<le> 3 then Some (Inr True)
      else if c_rem n 2 = Inr 0 \<or> c_rem n 3 = Inr 0 then Some (Inr False)
      else is_prime_loop n 5)"

text \<open>\<^verbatim>\<open>while (!is_prime(candidate)) candidate++;\<close>\<close>

partial_function (option) next_prime_loop :: "32 word \<Rightarrow> (arith_error + 32 word) option" where
  "next_prime_loop candidate =
     (case is_prime candidate of
        None \<Rightarrow> None
      | Some (Inl e) \<Rightarrow> Some (Inl e)
      | Some (Inr b) \<Rightarrow> if b then Some (Inr candidate) else next_prime_loop (candidate + 1))"

declare next_prime_loop.simps [code]

definition next_prime :: "32 word \<Rightarrow> (arith_error + 32 word) option" where
  "next_prime n = (if sint n < 2 then Some (Inr 2) else next_prime_loop (n + 1))"

text \<open>
  A prime number, for stating what \<open>next_prime\<close> returns: greater than 1 and without a
  divisor strictly between 1 and itself.
\<close>

definition prime_number :: "int \<Rightarrow> bool" where
  "prime_number p = (1 < p \<and> (\<forall>d\<in>{2..<p}. \<not> d dvd p))"

text \<open>
  Trial division, for checking that a given number is prime: \<open>no_divisor_between m i j\<close>
  says that none of \<open>i\<close>, \<open>i + 2\<close>, \<open>i + 6\<close>, \<open>i + 8\<close>, ... below \<open>j\<close> divides
  \<open>m\<close>. It computes on mathematical integers, without overflow.
\<close>

function no_divisor_between :: "int \<Rightarrow> int \<Rightarrow> int \<Rightarrow> bool" where
  "no_divisor_between m i j =
     (if i < j then
        (if i dvd m then False
         else if (i + 2) dvd m then False
         else no_divisor_between m (i + 6) j)
      else True)"
  by pat_completeness auto
termination
  by (relation "measure (\<lambda>(m, i, j). nat (j - i))") auto

section \<open>Properties of the searching functions\<close>

declare linear_search_loop.simps [simp del]

lemma linear_search_loop_absent:
  assumes "\<forall>j. n \<le> j \<and> j < length arr \<longrightarrow> arr ! j \<noteq> target"
  shows "linear_search_loop arr (int (length arr)) target (int n) = Inr (- 1)"
  using assms
proof (induction "length arr - n" arbitrary: n)
  case 0
  then show ?case by (subst linear_search_loop.simps) simp
next
  case (Suc d)
  then have lt: "n < length arr" by linarith
  with Suc.prems have rd: "c_read arr (int n) = Inr (arr ! n)" and ne: "arr ! n \<noteq> target"
    by (auto simp: c_read_def)
  have "linear_search_loop arr (int (length arr)) target (int (Suc n)) = Inr (- 1)"
    using Suc.hyps(2) Suc.prems by (intro Suc.hyps(1)) auto
  then show ?case
    using lt rd ne by (subst linear_search_loop.simps) (simp add: add.commute)
qed

lemma linear_search_loop_present:
  assumes "n \<le> k" and "k < length arr" and "arr ! k = target"
    and "\<forall>j. n \<le> j \<and> j < k \<longrightarrow> arr ! j \<noteq> target"
  shows "linear_search_loop arr (int (length arr)) target (int n) = Inr (int k)"
  using assms
proof (induction "k - n" arbitrary: n)
  case 0
  then have "c_read arr (int n) = Inr target" "n = k"
    by (auto simp: c_read_def)
  with 0 show ?case
    by (subst linear_search_loop.simps) simp
next
  case (Suc d)
  then have lt: "n < length arr" and ltk: "n < k" by linarith+
  with Suc.prems have rd: "c_read arr (int n) = Inr (arr ! n)" and ne: "arr ! n \<noteq> target"
    by (auto simp: c_read_def)
  have "linear_search_loop arr (int (length arr)) target (int (Suc n)) = Inr (int k)"
    using Suc.hyps(2) Suc.prems ltk by (intro Suc.hyps(1)) auto
  then show ?case
    using lt rd ne by (subst linear_search_loop.simps) (simp add: add.commute)
qed

text \<open>
  C6. For every integer array (sorted or not) and every target, \<open>linear_search\<close>
  called with the array's length returns the index of the first occurrence of the target
  when the target is present, and \<open>-1\<close> when it is absent.
\<close>

theorem linear_search_first_occurrence:
  "(target \<in> set arr \<longrightarrow>
      (\<exists>k. linear_search arr (int (length arr)) target = Inr (int k) \<and> k < length arr \<and>
           arr ! k = target \<and> (\<forall>j<k. arr ! j \<noteq> target))) \<and>
   (target \<notin> set arr \<longrightarrow> linear_search arr (int (length arr)) target = Inr (- 1))"
proof (intro conjI impI)
  assume "target \<in> set arr"
  then obtain m where m: "m < length arr" "arr ! m = target"
    by (auto simp: in_set_conv_nth)
  define k where "k = (LEAST n. n < length arr \<and> arr ! n = target)"
  have k: "k < length arr \<and> arr ! k = target"
    unfolding k_def by (rule LeastI [of _ m]) (use m in simp)
  have first: "\<forall>j<k. arr ! j \<noteq> target"
  proof (intro allI impI)
    fix j assume "j < k"
    then have "\<not> (j < length arr \<and> arr ! j = target)"
      unfolding k_def by (rule not_less_Least)
    with \<open>j < k\<close> k show "arr ! j \<noteq> target" by simp
  qed
  have "linear_search_loop arr (int (length arr)) target (int 0) = Inr (int k)"
    by (rule linear_search_loop_present) (use k first in auto)
  then have "linear_search_loop arr (int (length arr)) target 0 = Inr (int k)"
    by simp
  with k first
  show "\<exists>k. linear_search arr (int (length arr)) target = Inr (int k) \<and> k < length arr \<and>
           arr ! k = target \<and> (\<forall>j<k. arr ! j \<noteq> target)"
    unfolding linear_search_def by blast
next
  assume "target \<notin> set arr"
  then have "\<forall>j. 0 \<le> j \<and> j < length arr \<longrightarrow> arr ! j \<noteq> target"
    by auto
  then have "linear_search_loop arr (int (length arr)) target (int 0) = Inr (- 1)"
    by (rule linear_search_loop_absent)
  then show "linear_search arr (int (length arr)) target = Inr (- 1)"
    unfolding linear_search_def by simp
qed

theorem linear_search_first_occurrence_witness:
  "(3::int) \<in> set [5, 3, 7, 3] \<and> linear_search [5, 3, 7, 3] 4 3 = Inr 1 \<and>
   (9::int) \<notin> set [5, 3, 7, 3] \<and> linear_search [5, 3, 7, 3] 4 9 = Inr (- 1)"
proof -
  have a: "(3::int) \<in> set [5, 3, 7, 3]" and b: "(9::int) \<notin> set [5, 3, 7, 3]"
    by simp_all
  from linear_search_first_occurrence [of 3 "[5, 3, 7, 3]"] a
  obtain k where k: "linear_search [5, 3, 7, 3] (int (length [5, 3, 7, 3 :: int])) 3 = Inr (int k)"
    "k < length [5, 3, 7, 3 :: int]" "[5, 3, 7, 3 :: int] ! k = 3" "\<forall>j<k. [5, 3, 7, 3 :: int] ! j \<noteq> 3"
    by blast
  have "k = 1"
  proof (rule ccontr)
    assume "k \<noteq> 1"
    with k(2,3) have "k = 3" by (auto simp: nth_Cons' split: if_splits)
    with k(4) have "[5, 3, 7, 3 :: int] ! 1 \<noteq> 3" by (metis one_less_numeral_iff semiring_norm(77))
    then show False by simp
  qed
  with k(1) have c: "linear_search [5, 3, 7, 3] 4 3 = Inr 1" by simp
  from linear_search_first_occurrence [of 9 "[5, 3, 7, 3]"] b
  have d: "linear_search [5, 3, 7, 3] 4 9 = Inr (- 1)" by simp
  from a b c d show ?thesis by blast
qed

declare binary_search_loop.simps [simp del]

lemma bs_mid_bounds:
  assumes "left \<le> (right::int)"
  shows "left \<le> left + (right - left) sdiv 2" and "left + (right - left) sdiv 2 \<le> right"
  using assms by (simp_all add: sdiv2_nonneg)

lemma sorted_occurrences_right:
  assumes "sorted arr" and "m < length arr" and "arr ! m < target"
    and "k < length arr" and "arr ! k = target"
  shows "m < k"
proof (rule ccontr)
  assume "\<not> m < k"
  then have "k \<le> m" by simp
  with assms(1,2) have "arr ! k \<le> arr ! m" by (simp add: sorted_nth_mono)
  with assms(3,5) show False by simp
qed

lemma sorted_occurrences_left:
  assumes "sorted arr" and "m < length arr" and "target < arr ! m"
    and "k < length arr" and "arr ! k = target"
  shows "k < m"
proof (rule ccontr)
  assume "\<not> k < m"
  then have "m \<le> k" by simp
  with assms(1,4) have "arr ! m \<le> arr ! k" by (simp add: sorted_nth_mono)
  with assms(3,5) show False by simp
qed

lemma binary_search_loop_post:
  assumes "sorted arr" and "0 \<le> left" and "right < int (length arr)"
    and "\<forall>k<length arr. arr ! k = target \<longrightarrow> left \<le> int k \<and> int k \<le> right"
  shows "(target \<in> set arr \<longrightarrow>
            (\<exists>i. binary_search_loop arr target left right = Inr (int i) \<and>
                 i < length arr \<and> arr ! i = target)) \<and>
         (target \<notin> set arr \<longrightarrow> binary_search_loop arr target left right = Inr (- 1))"
    (is "?post (binary_search_loop arr target left right)")
  using assms
proof (induction "nat (right - left + 1)" arbitrary: left right rule: less_induct)
  case less
  show ?case
  proof (cases "left \<le> right")
    case False
    with less.prems(4) have "target \<notin> set arr"
      by (fastforce simp: in_set_conv_nth)
    with False show ?thesis
      by (subst binary_search_loop.simps) simp
  next
    case True
    define mid where "mid = left + (right - left) sdiv 2"
    from True have mid: "left \<le> mid" "mid \<le> right"
      unfolding mid_def by (rule bs_mid_bounds)+
    with less.prems have inb: "0 \<le> mid" "nat mid < length arr" by linarith+
    then have rd: "c_read arr mid = Inr (arr ! nat mid)"
      by (simp add: c_read_def)
    consider (eq) "arr ! nat mid = target" | (lt) "arr ! nat mid < target"
      | (gt) "target < arr ! nat mid" by linarith
    then show ?thesis
    proof cases
      case eq
      then have "binary_search_loop arr target left right = Inr (int (nat mid))"
        using True rd inb by (subst binary_search_loop.simps) (simp add: mid_def [symmetric])
      with eq inb show ?thesis
        by (metis nth_mem)
    next
      case lt
      have "?post (binary_search_loop arr target (mid + 1) right)"
      proof (rule less.hyps)
        show "nat (right - (mid + 1) + 1) < nat (right - left + 1)"
          using mid True by linarith
        show "sorted arr" "right < int (length arr)" by fact+
        show "0 \<le> mid + 1" using inb by simp
        show "\<forall>k<length arr. arr ! k = target \<longrightarrow> mid + 1 \<le> int k \<and> int k \<le> right"
        proof (intro allI impI)
          fix k assume k: "k < length arr" "arr ! k = target"
          with less.prems(1) inb(2) lt have "nat mid < k"
            by (rule sorted_occurrences_right)
          with k less.prems(4) inb show "mid + 1 \<le> int k \<and> int k \<le> right" by auto
        qed
      qed
      moreover have "binary_search_loop arr target left right
          = binary_search_loop arr target (mid + 1) right"
        using True rd lt by (subst binary_search_loop.simps) (simp add: mid_def [symmetric])
      ultimately show ?thesis by simp
    next
      case gt
      have "?post (binary_search_loop arr target left (mid - 1))"
      proof (rule less.hyps)
        show "nat (mid - 1 - left + 1) < nat (right - left + 1)"
          using mid True by linarith
        show "sorted arr" "0 \<le> left" by fact+
        show "mid - 1 < int (length arr)" using inb by linarith
        show "\<forall>k<length arr. arr ! k = target \<longrightarrow> left \<le> int k \<and> int k \<le> mid - 1"
        proof (intro allI impI)
          fix k assume k: "k < length arr" "arr ! k = target"
          with less.prems(1) inb(2) gt have "k < nat mid"
            by (rule sorted_occurrences_left)
          with k less.prems(4) inb show "left \<le> int k \<and> int k \<le> mid - 1" by auto
        qed
      qed
      moreover have "binary_search_loop arr target left right
          = binary_search_loop arr target left (mid - 1)"
        using True rd gt by (subst binary_search_loop.simps) (simp add: mid_def [symmetric])
      ultimately show ?thesis by simp
    qed
  qed
qed

lemma binary_search_recursive_eq_loop:
  "binary_search_recursive arr left right target = Some (binary_search_loop arr target left right)"
proof (induction arr target left right rule: binary_search_loop.induct)
  case (1 arr target left right)
  show ?case
  proof (cases "left \<le> right")
    case False
    then show ?thesis
      by (subst binary_search_recursive.simps, subst binary_search_loop.simps) simp
  next
    case True
    then show ?thesis
      using "1.IH"
      by (subst binary_search_recursive.simps, subst binary_search_loop.simps)
         (auto simp: Let_def split: sum.splits)
  qed
qed

text \<open>
  C1. For every sorted (non-decreasing) integer array and every target, the iterative
  \<open>binary_search\<close> called with the array's length and \<open>binary_search_recursive\<close>
  called on the whole index range return an index \<open>i\<close> with \<open>arr[i] = target\<close> when
  the target occurs in the array, and \<open>-1\<close> when it does not.
\<close>

theorem binary_search_correct:
  assumes "sorted arr"
  shows "(target \<in> set arr \<longrightarrow>
            (\<exists>i. binary_search arr (int (length arr)) target = Inr (int i) \<and>
                 i < length arr \<and> arr ! i = target) \<and>
            (\<exists>i. binary_search_recursive arr 0 (int (length arr) - 1) target = Some (Inr (int i)) \<and>
                 i < length arr \<and> arr ! i = target)) \<and>
         (target \<notin> set arr \<longrightarrow>
            binary_search arr (int (length arr)) target = Inr (- 1) \<and>
            binary_search_recursive arr 0 (int (length arr) - 1) target = Some (Inr (- 1)))"
proof -
  have "\<forall>k<length arr. arr ! k = target \<longrightarrow> 0 \<le> int k \<and> int k \<le> int (length arr) - 1"
    by auto
  with assms have
    "(target \<in> set arr \<longrightarrow>
        (\<exists>i. binary_search_loop arr target 0 (int (length arr) - 1) = Inr (int i) \<and>
             i < length arr \<and> arr ! i = target)) \<and>
     (target \<notin> set arr \<longrightarrow> binary_search_loop arr target 0 (int (length arr) - 1) = Inr (- 1))"
    by (intro binary_search_loop_post) simp_all
  then show ?thesis
    by (simp add: binary_search_def binary_search_recursive_eq_loop)
qed

theorem binary_search_correct_witness:
  "sorted [1, 3, 5, 7, 9 :: int] \<and>
   binary_search [1, 3, 5, 7, 9] 5 7 = Inr 3 \<and>
   binary_search_recursive [1, 3, 5, 7, 9] 0 4 7 = Some (Inr 3) \<and>
   binary_search [1, 3, 5, 7, 9] 5 8 = Inr (- 1) \<and>
   binary_search_recursive [1, 3, 5, 7, 9] 0 4 8 = Some (Inr (- 1))"
proof -
  have s: "sorted [1, 3, 5, 7, 9 :: int]" by simp
  have idx: "i = 3" if "i < length [1, 3, 5, 7, 9 :: int]" "[1, 3, 5, 7, 9 :: int] ! i = 7" for i
    using that by (auto simp: nth_Cons' split: if_splits)
  from binary_search_correct [OF s, of 7]
  obtain i j where
    "binary_search [1, 3, 5, 7, 9] 5 7 = Inr (int i)"
    "i < length [1, 3, 5, 7, 9 :: int]" "[1, 3, 5, 7, 9 :: int] ! i = 7"
    "binary_search_recursive [1, 3, 5, 7, 9] 0 4 7 = Some (Inr (int j))"
    "j < length [1, 3, 5, 7, 9 :: int]" "[1, 3, 5, 7, 9 :: int] ! j = 7"
    by auto
  then have "binary_search [1, 3, 5, 7, 9] 5 7 = Inr 3 \<and>
        binary_search_recursive [1, 3, 5, 7, 9] 0 4 7 = Some (Inr 3)"
    using idx [of i] idx [of j] by simp
  moreover from binary_search_correct [OF s, of 8]
  have "binary_search [1, 3, 5, 7, 9] 5 8 = Inr (- 1) \<and>
        binary_search_recursive [1, 3, 5, 7, 9] 0 4 8 = Some (Inr (- 1))"
    by simp
  ultimately show ?thesis using s by blast
qed

section \<open>Properties of the sorting functions\<close>

declare bubble_sort_inner.simps [simp del] bubble_sort_outer.simps [simp del]
declare selection_sort_inner.simps [simp del] selection_sort_outer.simps [simp del]
declare insertion_sort_inner.simps [simp del] insertion_sort_outer.simps [simp del]

lemma int_Suc_plus: "int (Suc n) = int n + 1"
  by simp

lemma c_read_nat [simp]: "n < length arr \<Longrightarrow> c_read arr (int n) = Inr (arr ! n)"
  by (simp add: c_read_def)

lemma c_read_Suc [simp]: "Suc n < length arr \<Longrightarrow> c_read arr (int n + 1) = Inr (arr ! Suc n)"
  using c_read_nat [of "Suc n" arr] by (simp add: add.commute)

lemma c_write_nat [simp]: "n < length arr \<Longrightarrow> c_write arr (int n) v = Inr (arr[n := v])"
  by (simp add: c_write_def)

lemma c_write_Suc [simp]:
  "Suc n < length arr \<Longrightarrow> c_write arr (int n + 1) v = Inr (arr[Suc n := v])"
  using c_write_nat [of "Suc n" arr v] by (simp add: add.commute)

lemma mset_swap_adjacent:
  assumes "Suc j < length arr"
  shows "mset (arr[j := arr ! Suc j, Suc j := arr ! j]) = mset arr"
  using assms mset_swap [of j arr "Suc j"] by (simp add: list_update_swap)

lemma bubble_sort_inner_spec:
  assumes "i + j + 1 \<le> length arr" and "\<forall>p<j. arr ! p \<le> arr ! j"
  shows "\<exists>arr' sw. bubble_sort_inner arr (int (length arr)) (int i) (int j) swapped = Inr (arr', sw) \<and>
           length arr' = length arr \<and> mset arr' = mset arr \<and>
           drop (length arr - i) arr' = drop (length arr - i) arr \<and>
           (\<forall>p<length arr - i. arr' ! p \<le> arr' ! (length arr - i - 1)) \<and>
           (\<not> sw \<longrightarrow> \<not> swapped \<and> arr' = arr \<and>
              (\<forall>p. j \<le> p \<and> p + 1 < length arr - i \<longrightarrow> arr ! p \<le> arr ! (p + 1)))"
  using assms
proof (induction "length arr - i - 1 - j" arbitrary: arr j swapped)
  case 0
  then have j: "j = length arr - i - 1" by linarith
  have "bubble_sort_inner arr (int (length arr)) (int i) (int j) swapped = Inr (arr, swapped)"
    using 0 by (subst bubble_sort_inner.simps) auto
  moreover have "\<forall>p<length arr - i. arr ! p \<le> arr ! (length arr - i - 1)"
  proof (intro allI impI)
    fix p assume "p < length arr - i"
    then have "p < j \<or> p = j" using j by linarith
    with "0.prems"(2) show "arr ! p \<le> arr ! (length arr - i - 1)"
      using j by auto
  qed
  moreover have "\<forall>p. j \<le> p \<and> p + 1 < length arr - i \<longrightarrow> arr ! p \<le> arr ! (p + 1)"
    using j by auto
  ultimately show ?case by simp
next
  case (Suc d)
  then have lt: "i + j + 2 \<le> length arr" by linarith
  then have cond: "int j < int (length arr) - int i - 1" and inb: "Suc j < length arr" "j < length arr"
    by linarith+
  show ?case
  proof (cases "arr ! j > arr ! Suc j")
    case True
    define arr2 where "arr2 = arr[j := arr ! Suc j, Suc j := arr ! j]"
    have len2: "length arr2 = length arr" by (simp add: arr2_def)
    have unfold: "bubble_sort_inner arr (int (length arr)) (int i) (int j) swapped
        = bubble_sort_inner arr2 (int (length arr2)) (int i) (int (Suc j)) True"
      using cond inb True
      by (subst bubble_sort_inner.simps) (simp add: arr2_def int_Suc_plus del: of_nat_Suc)
    have "\<exists>arr' sw. bubble_sort_inner arr2 (int (length arr2)) (int i) (int (Suc j)) True = Inr (arr', sw) \<and>
           length arr' = length arr2 \<and> mset arr' = mset arr2 \<and>
           drop (length arr2 - i) arr' = drop (length arr2 - i) arr2 \<and>
           (\<forall>p<length arr2 - i. arr' ! p \<le> arr' ! (length arr2 - i - 1)) \<and>
           (\<not> sw \<longrightarrow> \<not> True \<and> arr' = arr2 \<and>
              (\<forall>p. Suc j \<le> p \<and> p + 1 < length arr2 - i \<longrightarrow> arr2 ! p \<le> arr2 ! (p + 1)))"
    proof (rule Suc.hyps(1))
      show "d = length arr2 - i - 1 - Suc j" using Suc.hyps(2) len2 by linarith
      show "i + Suc j + 1 \<le> length arr2" using lt len2 by simp
      show "\<forall>p<Suc j. arr2 ! p \<le> arr2 ! Suc j"
      proof (intro allI impI)
        fix p assume p: "p < Suc j"
        have top: "arr2 ! Suc j = arr ! j" using inb by (simp add: arr2_def)
        show "arr2 ! p \<le> arr2 ! Suc j"
        proof (cases "p = j")
          case True
          then have "arr2 ! p = arr ! Suc j" using inb by (simp add: arr2_def)
          with top \<open>arr ! j > arr ! Suc j\<close> show ?thesis by simp
        next
          case False
          with p have "p < j" by simp
          then have "arr2 ! p = arr ! p" by (simp add: arr2_def)
          with top Suc.prems(2) \<open>p < j\<close> show ?thesis by simp
        qed
      qed
    qed
    then obtain arr' sw where r:
      "bubble_sort_inner arr2 (int (length arr2)) (int i) (int (Suc j)) True = Inr (arr', sw)"
      "length arr' = length arr2" "mset arr' = mset arr2"
      "drop (length arr2 - i) arr' = drop (length arr2 - i) arr2"
      "\<forall>p<length arr2 - i. arr' ! p \<le> arr' ! (length arr2 - i - 1)"
      "\<not> sw \<longrightarrow> \<not> True \<and> arr' = arr2 \<and>
          (\<forall>p. Suc j \<le> p \<and> p + 1 < length arr2 - i \<longrightarrow> arr2 ! p \<le> arr2 ! (p + 1))"
      by blast
    have "mset arr2 = mset arr"
      unfolding arr2_def using inb(1) by (rule mset_swap_adjacent)
    moreover have "drop (length arr - i) arr2 = drop (length arr - i) arr"
      using lt by (simp add: arr2_def)
    ultimately show ?thesis
      using r unfold len2 by auto
  next
    case False
    have unfold: "bubble_sort_inner arr (int (length arr)) (int i) (int j) swapped
        = bubble_sort_inner arr (int (length arr)) (int i) (int (Suc j)) swapped"
      using cond inb False
      by (subst bubble_sort_inner.simps) (simp add: int_Suc_plus del: of_nat_Suc)
    have "\<exists>arr' sw. bubble_sort_inner arr (int (length arr)) (int i) (int (Suc j)) swapped = Inr (arr', sw) \<and>
           length arr' = length arr \<and> mset arr' = mset arr \<and>
           drop (length arr - i) arr' = drop (length arr - i) arr \<and>
           (\<forall>p<length arr - i. arr' ! p \<le> arr' ! (length arr - i - 1)) \<and>
           (\<not> sw \<longrightarrow> \<not> swapped \<and> arr' = arr \<and>
              (\<forall>p. Suc j \<le> p \<and> p + 1 < length arr - i \<longrightarrow> arr ! p \<le> arr ! (p + 1)))"
    proof (rule Suc.hyps(1))
      show "d = length arr - i - 1 - Suc j" using Suc.hyps(2) by linarith
      show "i + Suc j + 1 \<le> length arr" using lt by simp
      show "\<forall>p<Suc j. arr ! p \<le> arr ! Suc j"
      proof (intro allI impI)
        fix p assume p: "p < Suc j"
        then have "arr ! p \<le> arr ! j" using Suc.prems(2) by (cases "p = j") auto
        with False show "arr ! p \<le> arr ! Suc j" by simp
      qed
    qed
    then obtain arr' sw where r:
      "bubble_sort_inner arr (int (length arr)) (int i) (int (Suc j)) swapped = Inr (arr', sw)"
      "length arr' = length arr" "mset arr' = mset arr"
      "drop (length arr - i) arr' = drop (length arr - i) arr"
      "\<forall>p<length arr - i. arr' ! p \<le> arr' ! (length arr - i - 1)"
      "\<not> sw \<longrightarrow> \<not> swapped \<and> arr' = arr \<and>
          (\<forall>p. Suc j \<le> p \<and> p + 1 < length arr - i \<longrightarrow> arr ! p \<le> arr ! (p + 1))"
      by blast
    have "\<forall>p. j \<le> p \<and> p + 1 < length arr - i \<longrightarrow> arr ! p \<le> arr ! (p + 1)" if "\<not> sw"
    proof (intro allI impI)
      fix p assume p: "j \<le> p \<and> p + 1 < length arr - i"
      show "arr ! p \<le> arr ! (p + 1)"
      proof (cases "p = j")
        case True
        with False show ?thesis by simp
      next
        case False
        with p have "Suc j \<le> p" by simp
        with r(6) that p show ?thesis by blast
      qed
    qed
    with r unfold show ?thesis by auto
  qed
qed


lemma mset_take_eq:
  assumes "mset xs = mset ys" and "drop m xs = drop m ys"
  shows "mset (take m xs) = mset (take m ys)"
proof -
  have "mset (take m xs) + mset (drop m xs) = mset (take m ys) + mset (drop m ys)"
    using assms(1) by (simp flip: mset_append)
  with assms(2) show ?thesis by simp
qed

lemma sorted_take_adjacent:
  assumes "\<forall>p. p + 1 < m \<longrightarrow> arr ! p \<le> arr ! (p + 1)" and "m \<le> length arr"
  shows "sorted (take m (arr :: int list))"
  using assms by (simp add: sorted_iff_nth_Suc)

lemma sorted_split:
  assumes "sorted (take m arr)" and "sorted (drop m arr)"
    and "\<forall>x\<in>set (take m arr). \<forall>y\<in>set (drop m arr). x \<le> y"
  shows "sorted (arr :: int list)"
proof -
  have "sorted (take m arr @ drop m arr)"
    using assms by (simp only: sorted_append)
  then show ?thesis by simp
qed

lemma bubble_sort_outer_spec:
  assumes "i \<le> length arr" and "sorted (drop (length arr - i) arr)"
    and "\<forall>x\<in>set (take (length arr - i) arr). \<forall>y\<in>set (drop (length arr - i) arr). x \<le> y"
  shows "\<exists>arr'. bubble_sort_outer arr (int (length arr)) (int i) = Inr arr' \<and>
           sorted arr' \<and> mset arr' = mset arr"
  using assms
proof (induction "length arr - 1 - i" arbitrary: arr i)
  case 0
  then have small: "length arr - i \<le> 1" by linarith
  have "bubble_sort_outer arr (int (length arr)) (int i) = Inr arr"
    using 0 by (subst bubble_sort_outer.simps) auto
  moreover have "sorted (take (length arr - i) arr)"
    using small by (simp add: sorted01)
  then have "sorted arr"
    using "0.prems"(2,3) by (rule sorted_split)
  ultimately show ?case by simp
next
  case (Suc d)
  define m where "m = length arr - i"
  from Suc.hyps(2) have lt: "i + 2 \<le> length arr" by linarith
  then have cond: "int i < int (length arr) - 1" and m: "2 \<le> m" "m \<le> length arr"
    unfolding m_def by linarith+
  have "\<exists>arr' sw. bubble_sort_inner arr (int (length arr)) (int i) (int 0) False = Inr (arr', sw) \<and>
           length arr' = length arr \<and> mset arr' = mset arr \<and>
           drop (length arr - i) arr' = drop (length arr - i) arr \<and>
           (\<forall>p<length arr - i. arr' ! p \<le> arr' ! (length arr - i - 1)) \<and>
           (\<not> sw \<longrightarrow> \<not> False \<and> arr' = arr \<and>
              (\<forall>p. 0 \<le> p \<and> p + 1 < length arr - i \<longrightarrow> arr ! p \<le> arr ! (p + 1)))"
    using lt by (intro bubble_sort_inner_spec) simp_all
  then obtain arr' sw where r:
    "bubble_sort_inner arr (int (length arr)) (int i) 0 False = Inr (arr', sw)"
    "length arr' = length arr" "mset arr' = mset arr"
    "drop m arr' = drop m arr"
    "\<forall>p<m. arr' ! p \<le> arr' ! (m - 1)"
    "\<not> sw \<longrightarrow> arr' = arr \<and> (\<forall>p. p + 1 < m \<longrightarrow> arr ! p \<le> arr ! (p + 1))"
    unfolding m_def by auto
  show ?case
  proof (cases sw)
    case False
    with r(6) have same: "arr' = arr" and adj: "\<forall>p. p + 1 < m \<longrightarrow> arr ! p \<le> arr ! (p + 1)"
      by simp_all
    have "bubble_sort_outer arr (int (length arr)) (int i) = Inr arr"
      using cond r(1) False same by (subst bubble_sort_outer.simps) simp
    moreover have "sorted (take m arr)"
      using adj m(2) by (rule sorted_take_adjacent)
    then have "sorted arr"
      using Suc.prems(2,3) unfolding m_def by (rule sorted_split)
    ultimately show ?thesis by simp
  next
    case True
    have unfold: "bubble_sort_outer arr (int (length arr)) (int i)
        = bubble_sort_outer arr' (int (length arr')) (int (Suc i))"
      using cond r(1,2) True
      by (subst bubble_sort_outer.simps) (simp add: int_Suc_plus del: of_nat_Suc)
    have tk: "set (take m arr') = set (take m arr)"
      using mset_take_eq [OF r(3) r(4)] by (rule mset_eq_setD)
    have m1: "m - 1 < length arr'" using m r(2) by linarith
    have dr: "drop (m - 1) arr' = arr' ! (m - 1) # drop m arr"
      using Cons_nth_drop_Suc [OF m1] m(1) r(4) by (simp add: Suc_diff_Suc)
    have top: "arr' ! (m - 1) \<in> set (take m arr)"
    proof -
      have "arr' ! (m - 1) = take m arr' ! (m - 1)" using m by simp
      also have "\<dots> \<in> set (take m arr')" using m r(2) by (intro nth_mem) simp
      finally show ?thesis using tk by simp
    qed
    have m': "length arr' - Suc i = m - 1" using r(2) by (simp add: m_def)
    have "\<exists>res. bubble_sort_outer arr' (int (length arr')) (int (Suc i)) = Inr res \<and>
           sorted res \<and> mset res = mset arr'"
    proof (rule Suc.hyps(1))
      show "d = length arr' - 1 - Suc i" using Suc.hyps(2) r(2) by linarith
      show "Suc i \<le> length arr'" using lt r(2) by linarith
      show "sorted (drop (length arr' - Suc i) arr')"
        using top Suc.prems(2,3) unfolding m' dr by (simp add: m_def)
      show "\<forall>x\<in>set (take (length arr' - Suc i) arr'). \<forall>y\<in>set (drop (length arr' - Suc i) arr'). x \<le> y"
        unfolding m' dr
      proof (intro ballI)
        fix x y assume x: "x \<in> set (take (m - 1) arr')" and y: "y \<in> set (arr' ! (m - 1) # drop m arr)"
        from x obtain p where p: "p < m - 1" "x = arr' ! p"
          by (auto simp: in_set_conv_nth)
        have "x \<in> set (take m arr)"
          using x tk set_take_subset_set_take [of "m - 1" m arr'] by auto
        with y p r(5) Suc.prems(3) show "x \<le> y"
          unfolding m_def [symmetric] by auto
      qed
    qed
    with unfold r(3) show ?thesis by auto
  qed
qed

lemma bubble_sort_sorts:
  "\<exists>arr'. bubble_sort arr (int (length arr)) = Inr arr' \<and> sorted arr' \<and> mset arr' = mset arr"
  unfolding bubble_sort_def
  using bubble_sort_outer_spec [of 0 arr] by simp


lemma mset_drop_eq:
  assumes "mset xs = mset ys" and "take m xs = take m ys"
  shows "mset (drop m xs) = mset (drop m ys)"
proof -
  have "mset (take m xs) + mset (drop m xs) = mset (take m ys) + mset (drop m ys)"
    using assms(1) by (simp flip: mset_append)
  with assms(2) show ?thesis by simp
qed

lemma in_set_drop_nth:
  "x \<in> set (drop i xs) \<longleftrightarrow> (\<exists>k. i \<le> k \<and> k < length xs \<and> xs ! k = x)"
proof
  assume "x \<in> set (drop i xs)"
  then obtain p where p: "p < length xs - i" "drop i xs ! p = x"
    by (auto simp: in_set_conv_nth)
  then have "i \<le> i + p \<and> i + p < length xs \<and> xs ! (i + p) = x" by auto
  then show "\<exists>k. i \<le> k \<and> k < length xs \<and> xs ! k = x" by blast
next
  assume "\<exists>k. i \<le> k \<and> k < length xs \<and> xs ! k = x"
  then obtain k where k: "i \<le> k" "k < length xs" "xs ! k = x" by blast
  then have "drop i xs ! (k - i) = x" "k - i < length (drop i xs)" by auto
  then show "x \<in> set (drop i xs)" by (metis nth_mem)
qed

lemma selection_sort_inner_spec:
  assumes "i \<le> min_idx" and "min_idx < j" and "j \<le> length arr"
    and "\<forall>k. i \<le> k \<and> k < j \<longrightarrow> arr ! min_idx \<le> arr ! k"
  shows "\<exists>m. selection_sort_inner arr (int (length arr)) (int min_idx) (int j) = Inr (int m) \<and>
           i \<le> m \<and> m < length arr \<and> (\<forall>k. i \<le> k \<and> k < length arr \<longrightarrow> arr ! m \<le> arr ! k)"
  using assms
proof (induction "length arr - j" arbitrary: min_idx j)
  case 0
  then have "selection_sort_inner arr (int (length arr)) (int min_idx) (int j) = Inr (int min_idx)"
    by (subst selection_sort_inner.simps) auto
  with 0 show ?case by auto
next
  case (Suc d)
  then have lt: "j < length arr" "min_idx < length arr" by linarith+
  show ?case
  proof (cases "arr ! j < arr ! min_idx")
    case True
    have unfold: "selection_sort_inner arr (int (length arr)) (int min_idx) (int j)
        = selection_sort_inner arr (int (length arr)) (int j) (int (Suc j))"
      using lt True
      by (subst selection_sort_inner.simps) (simp add: int_Suc_plus del: of_nat_Suc)
    have "\<exists>m. selection_sort_inner arr (int (length arr)) (int j) (int (Suc j)) = Inr (int m) \<and>
           i \<le> m \<and> m < length arr \<and> (\<forall>k. i \<le> k \<and> k < length arr \<longrightarrow> arr ! m \<le> arr ! k)"
    proof (rule Suc.hyps(1))
      show "d = length arr - Suc j" using Suc.hyps(2) by linarith
      show "i \<le> j" using Suc.prems by linarith
      show "j < Suc j" by simp
      show "Suc j \<le> length arr" using lt by simp
      show "\<forall>k. i \<le> k \<and> k < Suc j \<longrightarrow> arr ! j \<le> arr ! k"
      proof (intro allI impI)
        fix k assume k: "i \<le> k \<and> k < Suc j"
        show "arr ! j \<le> arr ! k"
        proof (cases "k = j")
          case False
          with k Suc.prems(4) have "arr ! min_idx \<le> arr ! k" by simp
          with True show ?thesis by simp
        qed simp
      qed
    qed
    with unfold show ?thesis by simp
  next
    case False
    have unfold: "selection_sort_inner arr (int (length arr)) (int min_idx) (int j)
        = selection_sort_inner arr (int (length arr)) (int min_idx) (int (Suc j))"
      using lt False
      by (subst selection_sort_inner.simps) (simp add: int_Suc_plus del: of_nat_Suc)
    have "\<exists>m. selection_sort_inner arr (int (length arr)) (int min_idx) (int (Suc j)) = Inr (int m) \<and>
           i \<le> m \<and> m < length arr \<and> (\<forall>k. i \<le> k \<and> k < length arr \<longrightarrow> arr ! m \<le> arr ! k)"
    proof (rule Suc.hyps(1))
      show "d = length arr - Suc j" using Suc.hyps(2) by linarith
      show "i \<le> min_idx" by fact
      show "min_idx < Suc j" using Suc.prems by simp
      show "Suc j \<le> length arr" using lt by simp
      show "\<forall>k. i \<le> k \<and> k < Suc j \<longrightarrow> arr ! min_idx \<le> arr ! k"
      proof (intro allI impI)
        fix k assume k: "i \<le> k \<and> k < Suc j"
        show "arr ! min_idx \<le> arr ! k"
        proof (cases "k = j")
          case True
          with False show ?thesis by simp
        next
          case False
          with k Suc.prems(4) show ?thesis by simp
        qed
      qed
    qed
    with unfold show ?thesis by simp
  qed
qed

lemma selection_sort_outer_spec:
  assumes "sorted (take i arr)"
    and "\<forall>x\<in>set (take i arr). \<forall>y\<in>set (drop i arr). x \<le> y"
  shows "\<exists>arr'. selection_sort_outer arr (int (length arr)) (int i) = Inr arr' \<and>
           sorted arr' \<and> mset arr' = mset arr"
  using assms
proof (induction "length arr - 1 - i" arbitrary: arr i)
  case 0
  then have "length (drop i arr) \<le> 1" by simp
  then have "sorted (drop i arr)" by (simp add: sorted01)
  with "0.prems"(1) have "sorted arr"
    using "0.prems"(2) by (rule sorted_split)
  moreover have "selection_sort_outer arr (int (length arr)) (int i) = Inr arr"
    using 0 by (subst selection_sort_outer.simps) auto
  ultimately show ?case by simp
next
  case (Suc d)
  from Suc.hyps(2) have lt: "i + 2 \<le> length arr" by linarith
  then have cond: "int i < int (length arr) - 1" and i: "i < length arr" "Suc i \<le> length arr"
    by linarith+
  have "\<exists>m. selection_sort_inner arr (int (length arr)) (int i) (int (Suc i)) = Inr (int m) \<and>
           i \<le> m \<and> m < length arr \<and> (\<forall>k. i \<le> k \<and> k < length arr \<longrightarrow> arr ! m \<le> arr ! k)"
    using i by (intro selection_sort_inner_spec) (auto simp: less_Suc_eq_le)
  then obtain m where m:
    "selection_sort_inner arr (int (length arr)) (int i) (int i + 1) = Inr (int m)"
    "i \<le> m" "m < length arr" "\<forall>k. i \<le> k \<and> k < length arr \<longrightarrow> arr ! m \<le> arr ! k"
    by (auto simp: add.commute)
  define arr2 where "arr2 = (if m \<noteq> i then arr[i := arr ! m, m := arr ! i] else arr)"
  have len2: "length arr2 = length arr" by (simp add: arr2_def)
  have unfold: "selection_sort_outer arr (int (length arr)) (int i)
      = selection_sort_outer arr2 (int (length arr2)) (int (Suc i))"
    using cond m(1,3) i
    by (subst selection_sort_outer.simps) (simp add: arr2_def int_Suc_plus del: of_nat_Suc)
  have mset2: "mset arr2 = mset arr"
    using mset_swap [of m arr i] m(3) i(1) by (simp add: arr2_def)
  have take2: "take i arr2 = take i arr"
    using m(2) by (simp add: arr2_def)
  have drop2: "set (drop i arr2) = set (drop i arr)"
    using mset_drop_eq [OF mset2 take2] by (rule mset_eq_setD)
  have at_i: "arr2 ! i = arr ! m"
    using m(2,3) i(1) by (auto simp: arr2_def nth_list_update)
  have take_Suc: "take (Suc i) arr2 = take i arr @ [arr ! m]"
    using take_Suc_conv_app_nth [of i arr2] i(1) len2 take2 at_i by simp
  have min_in: "arr ! m \<in> set (drop i arr)"
    using m(2,3) by (auto simp: in_set_drop_nth)
  have min_le: "\<forall>y\<in>set (drop i arr). arr ! m \<le> y"
    using m(4) by (auto simp: in_set_drop_nth)
  have sub: "set (drop (Suc i) arr2) \<subseteq> set (drop i arr)"
    using set_drop_subset_set_drop [of i "Suc i" arr2] drop2 by simp
  have "\<exists>res. selection_sort_outer arr2 (int (length arr2)) (int (Suc i)) = Inr res \<and>
          sorted res \<and> mset res = mset arr2"
  proof (rule Suc.hyps(1))
    show "d = length arr2 - 1 - Suc i" using Suc.hyps(2) len2 by linarith
    show "sorted (take (Suc i) arr2)"
      unfolding take_Suc using Suc.prems min_in by (simp add: sorted_append)
    show "\<forall>x\<in>set (take (Suc i) arr2). \<forall>y\<in>set (drop (Suc i) arr2). x \<le> y"
      unfolding take_Suc using Suc.prems(2) min_le sub by auto
  qed
  with unfold mset2 show ?case by auto
qed

lemma selection_sort_sorts:
  "\<exists>arr'. selection_sort arr (int (length arr)) = Inr arr' \<and> sorted arr' \<and> mset arr' = mset arr"
  unfolding selection_sort_def
  using selection_sort_outer_spec [of 0 arr] by simp


lemma insertion_sort_inner_spec:
  assumes "h < length arr"
  shows "\<exists>arr' h'. insertion_sort_inner arr key (int h - 1) = Inr (arr', int h' - 1) \<and>
           h' \<le> h \<and> length arr' = length arr \<and>
           (\<forall>p\<le>h'. arr' ! p = arr ! p) \<and>
           (\<forall>p. h' < p \<and> p \<le> h \<longrightarrow> arr' ! p = arr ! (p - 1)) \<and>
           (\<forall>p. h < p \<and> p < length arr \<longrightarrow> arr' ! p = arr ! p) \<and>
           (\<forall>p. h' \<le> p \<and> p < h \<longrightarrow> key < arr ! p) \<and>
           (0 < h' \<longrightarrow> arr ! (h' - 1) \<le> key)"
  using assms
proof (induction h arbitrary: arr)
  case 0
  have "insertion_sort_inner arr key (int 0 - 1) = Inr (arr, int 0 - 1)"
    by (subst insertion_sort_inner.simps) simp
  then show ?case by blast
next
  case (Suc h0)
  then have inb: "h0 < length arr" "Suc h0 < length arr" by simp_all
  show ?case
  proof (cases "arr ! h0 > key")
    case False
    have "insertion_sort_inner arr key (int (Suc h0) - 1) = Inr (arr, int (Suc h0) - 1)"
      using inb False by (subst insertion_sort_inner.simps) simp
    moreover have "0 < Suc h0 \<longrightarrow> arr ! (Suc h0 - 1) \<le> key"
      using False by simp
    ultimately show ?thesis by (intro exI [of _ arr] exI [of _ "Suc h0"]) simp
  next
    case True
    define arr1 where "arr1 = arr[Suc h0 := arr ! h0]"
    have len1: "length arr1 = length arr" by (simp add: arr1_def)
    have unfold: "insertion_sort_inner arr key (int (Suc h0) - 1)
        = insertion_sort_inner arr1 key (int h0 - 1)"
      using inb True by (subst insertion_sort_inner.simps) (simp add: arr1_def)
    have "\<exists>arr' h'. insertion_sort_inner arr1 key (int h0 - 1) = Inr (arr', int h' - 1) \<and>
           h' \<le> h0 \<and> length arr' = length arr1 \<and>
           (\<forall>p\<le>h'. arr' ! p = arr1 ! p) \<and>
           (\<forall>p. h' < p \<and> p \<le> h0 \<longrightarrow> arr' ! p = arr1 ! (p - 1)) \<and>
           (\<forall>p. h0 < p \<and> p < length arr1 \<longrightarrow> arr' ! p = arr1 ! p) \<and>
           (\<forall>p. h' \<le> p \<and> p < h0 \<longrightarrow> key < arr1 ! p) \<and>
           (0 < h' \<longrightarrow> arr1 ! (h' - 1) \<le> key)"
      using inb len1 by (intro Suc.IH) simp
    then obtain arr' h' where r:
      "insertion_sort_inner arr1 key (int h0 - 1) = Inr (arr', int h' - 1)"
      "h' \<le> h0" "length arr' = length arr1"
      "\<forall>p\<le>h'. arr' ! p = arr1 ! p"
      "\<forall>p. h' < p \<and> p \<le> h0 \<longrightarrow> arr' ! p = arr1 ! (p - 1)"
      "\<forall>p. h0 < p \<and> p < length arr1 \<longrightarrow> arr' ! p = arr1 ! p"
      "\<forall>p. h' \<le> p \<and> p < h0 \<longrightarrow> key < arr1 ! p"
      "0 < h' \<longrightarrow> arr1 ! (h' - 1) \<le> key"
      by blast
    have old: "arr1 ! p = arr ! p" if "p \<noteq> Suc h0" for p
      using that by (simp add: arr1_def)
    have new: "arr1 ! Suc h0 = arr ! h0"
      using inb by (simp add: arr1_def)
    have a: "\<forall>p\<le>h'. arr' ! p = arr ! p"
      using r(2,4) old by auto
    have b: "\<forall>p. h' < p \<and> p \<le> Suc h0 \<longrightarrow> arr' ! p = arr ! (p - 1)"
    proof (intro allI impI)
      fix p assume p: "h' < p \<and> p \<le> Suc h0"
      show "arr' ! p = arr ! (p - 1)"
      proof (cases "p = Suc h0")
        case True
        with r(6) inb len1 new show ?thesis by simp
      next
        case False
        with p have "p \<le> h0" "p - 1 \<noteq> Suc h0" by linarith+
        with p r(5) old show ?thesis by simp
      qed
    qed
    have c: "\<forall>p. Suc h0 < p \<and> p < length arr \<longrightarrow> arr' ! p = arr ! p"
      using r(6) len1 old by auto
    have d: "\<forall>p. h' \<le> p \<and> p < Suc h0 \<longrightarrow> key < arr ! p"
    proof (intro allI impI)
      fix p assume p: "h' \<le> p \<and> p < Suc h0"
      show "key < arr ! p"
      proof (cases "p = h0")
        case True
        with \<open>arr ! h0 > key\<close> show ?thesis by simp
      next
        case False
        with p have "p < h0" by simp
        with p r(7) old show ?thesis by auto
      qed
    qed
    have e: "0 < h' \<longrightarrow> arr ! (h' - 1) \<le> key"
      using r(2,8) old by auto
    from r(1,2,3) unfold len1 a b c d e show ?thesis
      by (intro exI [of _ arr'] exI [of _ h']) simp
  qed
qed

lemma sorted_insert_middle:
  assumes "sorted xs" and "sorted ys" and "\<forall>x\<in>set xs. x \<le> key" and "\<forall>y\<in>set ys. key \<le> y"
  shows "sorted (xs @ (key :: int) # ys)"
  using assms by (fastforce simp: sorted_append)

lemma insertion_sort_outer_spec:
  assumes "sorted (take i arr)"
  shows "\<exists>arr'. insertion_sort_outer arr (int (length arr)) (int i) = Inr arr' \<and>
           sorted arr' \<and> mset arr' = mset arr"
  using assms
proof (induction "length arr - i" arbitrary: arr i)
  case 0
  then have "insertion_sort_outer arr (int (length arr)) (int i) = Inr arr"
    by (subst insertion_sort_outer.simps) auto
  with 0 show ?case by simp
next
  case (Suc d)
  then have i: "i < length arr" by linarith
  define key where "key = arr ! i"
  define T where "T = take i arr"
  have lenT: "length T = i" using i by (simp add: T_def)
  obtain arr1 h where r:
    "insertion_sort_inner arr key (int i - 1) = Inr (arr1, int h - 1)"
    "h \<le> i" "length arr1 = length arr"
    "\<forall>p\<le>h. arr1 ! p = arr ! p"
    "\<forall>p. h < p \<and> p \<le> i \<longrightarrow> arr1 ! p = arr ! (p - 1)"
    "\<forall>p. i < p \<and> p < length arr \<longrightarrow> arr1 ! p = arr ! p"
    "\<forall>p. h \<le> p \<and> p < i \<longrightarrow> key < arr ! p"
    "0 < h \<longrightarrow> arr ! (h - 1) \<le> key"
    using insertion_sort_inner_spec [OF i, of key] by blast
  define arr2 where "arr2 = arr1[h := key]"
  have len2: "length arr2 = length arr" by (simp add: arr2_def r(3))
  have unfold: "insertion_sort_outer arr (int (length arr)) (int i)
      = insertion_sort_outer arr2 (int (length arr2)) (int (Suc i))"
    using i r(1,2,3)
    by (subst insertion_sort_outer.simps)
       (simp add: arr2_def key_def int_Suc_plus del: of_nat_Suc)
  have front: "take (Suc i) arr2 = take h T @ key # drop h T"
  proof (rule nth_equalityI)
    show "length (take (Suc i) arr2) = length (take h T @ key # drop h T)"
      using i r(2) len2 lenT by simp
  next
    fix p assume "p < length (take (Suc i) arr2)"
    then have p: "p \<le> i" using i len2 by simp
    consider (lo) "p < h" | (eq) "p = h" | (hi) "h < p" by linarith
    then show "take (Suc i) arr2 ! p = (take h T @ key # drop h T) ! p"
    proof cases
      case lo
      with p r(2,4) i show ?thesis
        by (simp add: arr2_def nth_append lenT T_def)
    next
      case eq
      with p r(2,3) i show ?thesis
        by (simp add: arr2_def nth_append lenT)
    next
      case hi
      then have "(take h T @ key # drop h T) ! p = drop h T ! (p - Suc h)"
        using r(2) lenT by (simp add: nth_append nth_Cons')
      also have "\<dots> = arr ! (p - 1)"
        using hi p r(2) lenT i by (simp add: T_def)
      finally show ?thesis
        using hi p r(5) i by (simp add: arr2_def)
    qed
  qed
  have tail_eq: "drop (Suc i) arr2 = drop (Suc i) arr"
  proof (rule nth_equalityI)
    show "length (drop (Suc i) arr2) = length (drop (Suc i) arr)"
      using len2 by simp
  next
    fix p assume "p < length (drop (Suc i) arr2)"
    then have "Suc i + p < length arr" using len2 by simp
    with r(2,6) show "drop (Suc i) arr2 ! p = drop (Suc i) arr ! p"
      by (simp add: arr2_def len2 r(3))
  qed
  have srt: "sorted T" using Suc.prems by (simp add: T_def)
  have "sorted (take (Suc i) arr2)"
    unfolding front
  proof (rule sorted_insert_middle)
    show "sorted (take h T)" using srt by (rule sorted_wrt_take)
    show "sorted (drop h T)" using srt by (rule sorted_wrt_drop)
    show "\<forall>x\<in>set (take h T). x \<le> key"
    proof
      fix x assume "x \<in> set (take h T)"
      then obtain p where p: "p < h" "x = T ! p"
        using r(2) lenT by (auto simp: in_set_conv_nth)
      then have "T ! p \<le> T ! (h - 1)"
        using srt r(2) lenT by (intro sorted_nth_mono) auto
      also have "T ! (h - 1) = arr ! (h - 1)"
        using p r(2) by (simp add: T_def)
      finally show "x \<le> key" using p r(8) by simp
    qed
    show "\<forall>y\<in>set (drop h T). key \<le> y"
    proof
      fix y assume "y \<in> set (drop h T)"
      then obtain k where k: "h \<le> k" "k < length T" "T ! k = y"
        by (auto simp: in_set_drop_nth)
      with r(7) lenT have "key < arr ! k" by simp
      with k lenT show "key \<le> y" by (simp add: T_def)
    qed
  qed
  then have "\<exists>res. insertion_sort_outer arr2 (int (length arr2)) (int (Suc i)) = Inr res \<and>
          sorted res \<and> mset res = mset arr2"
    using Suc.hyps(2) len2 by (intro Suc.hyps(1)) linarith
  moreover have "mset arr2 = mset arr"
  proof -
    have "mset arr2 = mset (take (Suc i) arr2) + mset (drop (Suc i) arr2)"
      by (simp flip: mset_append)
    also have "\<dots> = mset (take h T) + mset (drop h T) + {#key#} + mset (drop (Suc i) arr)"
      by (simp add: front tail_eq)
    also have "mset (take h T) + mset (drop h T) = mset T"
      by (simp flip: mset_append)
    also have "mset T + {#key#} + mset (drop (Suc i) arr) = mset (take (Suc i) arr) + mset (drop (Suc i) arr)"
      using i by (simp add: T_def key_def take_Suc_conv_app_nth)
    also have "\<dots> = mset arr"
      by (simp flip: mset_append)
    finally show ?thesis .
  qed
  ultimately show ?case using unfold by auto
qed

lemma insertion_sort_sorts:
  "\<exists>arr'. insertion_sort arr (int (length arr)) = Inr arr' \<and> sorted arr' \<and> mset arr' = mset arr"
proof -
  have "sorted (take 1 arr)" by (simp add: sorted01)
  from insertion_sort_outer_spec [OF this] show ?thesis
    by (simp add: insertion_sort_def)
qed

text \<open>
  C2. For every integer array, each of \<open>bubble_sort\<close>, \<open>selection_sort\<close> and
  \<open>insertion_sort\<close>, called with the array's length, finishes without leaving the
  array and produces an array that is non-decreasing and a permutation of the input.
\<close>

theorem sorts_sorted_permutation:
  "(\<exists>r. bubble_sort arr (int (length arr)) = Inr r \<and> sorted r \<and> mset r = mset arr) \<and>
   (\<exists>r. selection_sort arr (int (length arr)) = Inr r \<and> sorted r \<and> mset r = mset arr) \<and>
   (\<exists>r. insertion_sort arr (int (length arr)) = Inr r \<and> sorted r \<and> mset r = mset arr)"
  by (intro conjI bubble_sort_sorts selection_sort_sorts insertion_sort_sorts)

section \<open>Properties of the linked list\<close>

lemma path_at_append:
  "path_at h p (xs @ ys) q \<longleftrightarrow> (\<exists>r. path_at h p xs r \<and> path_at h r ys q)"
  by (induction xs arbitrary: p) (auto split: option.splits)

lemma path_at_update:
  "a \<notin> set as \<Longrightarrow> path_at (h(a := x)) p as q = path_at h p as q"
  by (induction as arbitrary: p) (auto split: option.splits)

lemma list_at_update:
  "a \<notin> set as \<Longrightarrow> list_at (h(a := x)) p as = list_at h p as"
  by (simp add: list_at_def path_at_update)

lemma list_at_Nil [simp]: "list_at h p [] \<longleftrightarrow> p = None"
  by (simp add: list_at_def)

lemma list_at_Cons:
  "list_at h p (a # as) \<longleftrightarrow> p = Some a \<and> (\<exists>nd. h a = Some nd \<and> list_at h (nxt nd) as)"
  by (auto simp: list_at_def split: option.splits)

lemma list_at_unique:
  "list_at h p as \<Longrightarrow> list_at h p bs \<Longrightarrow> as = bs"
proof (induction as arbitrary: p bs)
  case Nil
  then show ?case by (cases bs) (auto simp: list_at_Cons)
next
  case (Cons a as)
  then show ?case by (cases bs) (auto simp: list_at_Cons)
qed

lemma list_at_suffix:
  assumes "list_at h p (xs @ ys)"
  shows "\<exists>r. path_at h p xs r \<and> list_at h r ys"
  using assms by (simp add: list_at_def path_at_append)

lemma list_at_head_notin_tail:
  assumes "h a = Some nd" and "list_at h (nxt nd) as"
  shows "a \<notin> set as"
proof
  assume "a \<in> set as"
  then obtain xs ys where split: "as = xs @ a # ys"
    by (auto simp: in_set_conv_decomp)
  with assms(2) obtain r where "list_at h r (a # ys)"
    using list_at_suffix by blast
  with assms(1) have "list_at h (nxt nd) ys"
    by (simp add: list_at_Cons)
  with assms(2) have "as = ys" by (rule list_at_unique)
  with split show False by simp
qed

lemma list_at_distinct: "list_at h p as \<Longrightarrow> distinct as"
proof (induction as arbitrary: p)
  case Nil
  show ?case by simp
next
  case (Cons a as)
  then obtain nd where nd: "h a = Some nd" "list_at h (nxt nd) as"
    by (auto simp: list_at_Cons)
  with Cons.IH list_at_head_notin_tail show ?case by auto
qed

lemma node_values_update:
  "a \<notin> set as \<Longrightarrow> node_values (h(a := x)) as = node_values h as"
  by (auto simp: node_values_def)

subsection \<open>reverse\_list\<close>

lemma reverse_list_loop_spec:
  assumes "list_at h current cs" and "list_at h prev ps" and "set cs \<inter> set ps = {}"
  shows "\<exists>h' p'. reverse_list_loop h prev current = Some (Inr (h', p')) \<and>
           list_at h' p' (rev cs @ ps) \<and>
           (\<forall>a. a \<notin> set cs \<longrightarrow> h' a = h a) \<and>
           (\<forall>a\<in>set cs. data (the (h' a)) = data (the (h a)))"
  using assms
proof (induction cs arbitrary: h prev current ps)
  case Nil
  then show ?case
    by (subst reverse_list_loop.simps) simp
next
  case (Cons c cs)
  from Cons.prems(1) obtain cn where cn: "current = Some c" "h c = Some cn" "list_at h (nxt cn) cs"
    by (auto simp: list_at_Cons)
  define h1 where "h1 = h(c \<mapsto> cn\<lparr>nxt := prev\<rparr>)"
  have c_cs: "c \<notin> set cs"
    using cn(2,3) by (rule list_at_head_notin_tail)
  have c_ps: "c \<notin> set ps"
    using Cons.prems(3) by auto
  have unfold: "reverse_list_loop h prev current = reverse_list_loop h1 (Some c) (nxt cn)"
    using cn by (subst reverse_list_loop.simps) (simp add: h1_def)
  have "\<exists>h' p'. reverse_list_loop h1 (Some c) (nxt cn) = Some (Inr (h', p')) \<and>
           list_at h' p' (rev cs @ c # ps) \<and>
           (\<forall>a. a \<notin> set cs \<longrightarrow> h' a = h1 a) \<and>
           (\<forall>a\<in>set cs. data (the (h' a)) = data (the (h1 a)))"
  proof (rule Cons.IH)
    show "list_at h1 (nxt cn) cs"
      unfolding h1_def using c_cs cn(3) by (simp add: list_at_update)
    have "list_at h1 prev ps"
      unfolding h1_def using c_ps Cons.prems(2) by (simp add: list_at_update)
    then show "list_at h1 (Some c) (c # ps)"
      by (simp add: list_at_Cons h1_def)
    show "set cs \<inter> set (c # ps) = {}"
      using c_cs Cons.prems(3) by auto
  qed
  then obtain h' p' where r:
    "reverse_list_loop h1 (Some c) (nxt cn) = Some (Inr (h', p'))"
    "list_at h' p' (rev cs @ c # ps)"
    "\<forall>a. a \<notin> set cs \<longrightarrow> h' a = h1 a"
    "\<forall>a\<in>set cs. data (the (h' a)) = data (the (h1 a))"
    by blast
  have "\<forall>a. a \<notin> set (c # cs) \<longrightarrow> h' a = h a"
    using r(3) by (simp add: h1_def)
  moreover have "\<forall>a\<in>set (c # cs). data (the (h' a)) = data (the (h a))"
  proof
    fix a assume "a \<in> set (c # cs)"
    then consider "a = c" | "a \<in> set cs" "a \<noteq> c" using c_cs by auto
    then show "data (the (h' a)) = data (the (h a))"
    proof cases
      case 1
      with r(3) c_cs cn(2) show ?thesis by (simp add: h1_def)
    next
      case 2
      with r(4) show ?thesis by (simp add: h1_def)
    qed
  qed
  ultimately show ?case
    using r(1,2) unfold by simp
qed

lemma reverse_list_spec:
  assumes "list_at h head as"
  shows "\<exists>h' head'. reverse_list h head = Some (Inr (h', head')) \<and>
           list_at h' head' (rev as) \<and> node_values h' (rev as) = rev (node_values h as)"
proof -
  have "list_at h None []" by simp
  with assms obtain h' p' where r:
    "reverse_list_loop h None head = Some (Inr (h', p'))"
    "list_at h' p' (rev as @ [])"
    "\<forall>a\<in>set as. data (the (h' a)) = data (the (h a))"
    using reverse_list_loop_spec [of h head as None "[]"] by auto
  from r(3) have "node_values h' (rev as) = rev (node_values h as)"
    by (simp add: node_values_def rev_map)
  with r(1,2) show ?thesis by (simp add: reverse_list_def)
qed

lemma list_at_head_eq:
  assumes "list_at h p as" and "list_at h' p' as"
  shows "p = p'"
  using assms by (cases as) (auto simp: list_at_Cons)

text \<open>
  C10. \<open>reverse_list\<close> maps a list holding the values \<open>[v1, ..., vn]\<close> to a list holding
  \<open>[vn, ..., v1]\<close> (on the same nodes, in reverse order); applying it twice gives a list
  with the original head, the original order of nodes and the original values.
\<close>

theorem reverse_list_reverses:
  assumes "list_at h head as"
  shows "\<exists>h1 head1. reverse_list h head = Some (Inr (h1, head1)) \<and>
           list_at h1 head1 (rev as) \<and> node_values h1 (rev as) = rev (node_values h as) \<and>
           (\<exists>h2. reverse_list h1 head1 = Some (Inr (h2, head)) \<and>
                 list_at h2 head as \<and> node_values h2 as = node_values h as)"
proof -
  from reverse_list_spec [OF assms] obtain h1 head1 where r1:
    "reverse_list h head = Some (Inr (h1, head1))" "list_at h1 head1 (rev as)"
    "node_values h1 (rev as) = rev (node_values h as)"
    by blast
  from reverse_list_spec [OF r1(2)] obtain h2 head2 where r2:
    "reverse_list h1 head1 = Some (Inr (h2, head2))" "list_at h2 head2 as"
    "node_values h2 as = rev (node_values h1 (rev as))"
    by auto
  have "head2 = head" using r2(2) assms by (rule list_at_head_eq)
  with r1 r2 show ?thesis by auto
qed


theorem reverse_list_reverses_witness:
  "list_at [1 \<mapsto> \<lparr>data = 10, nxt = Some 5\<rparr>, 5 \<mapsto> \<lparr>data = 20, nxt = Some 3\<rparr>,
            3 \<mapsto> \<lparr>data = 30, nxt = None\<rparr>] (Some 1) [1, 5, 3] \<and>
   (\<exists>h1. reverse_list [1 \<mapsto> \<lparr>data = 10, nxt = Some 5\<rparr>, 5 \<mapsto> \<lparr>data = 20, nxt = Some 3\<rparr>,
                        3 \<mapsto> \<lparr>data = 30, nxt = None\<rparr>] (Some 1) = Some (Inr (h1, Some 3)) \<and>
         list_at h1 (Some 3) [3, 5, 1] \<and> node_values h1 [3, 5, 1] = [30, 20, 10] \<and>
         (\<exists>h2. reverse_list h1 (Some 3) = Some (Inr (h2, Some 1)) \<and>
               list_at h2 (Some 1) [1, 5, 3] \<and> node_values h2 [1, 5, 3] = [10, 20, 30]))"
proof -
  define h :: heap where "h = [1 \<mapsto> \<lparr>data = 10, nxt = Some 5\<rparr>,
    5 \<mapsto> \<lparr>data = 20, nxt = Some 3\<rparr>, 3 \<mapsto> \<lparr>data = 30, nxt = None\<rparr>]"
  have l: "list_at h (Some 1) [1, 5, 3]"
    by (simp add: h_def list_at_def)
  have v: "node_values h [1, 5, 3] = [10, 20, 30]"
    by (simp add: h_def node_values_def)
  from reverse_list_reverses [OF l] obtain h1 head1 h2 where r:
    "reverse_list h (Some 1) = Some (Inr (h1, head1))"
    "list_at h1 head1 (rev [1, 5, 3])"
    "node_values h1 (rev [1, 5, 3]) = rev (node_values h [1, 5, 3])"
    "reverse_list h1 head1 = Some (Inr (h2, Some 1))"
    "list_at h2 (Some 1) [1, 5, 3]" "node_values h2 [1, 5, 3] = node_values h [1, 5, 3]"
    by blast
  from r(2) have "head1 = Some 3" by (simp add: list_at_Cons)
  with r v have "\<exists>h1. reverse_list h (Some 1) = Some (Inr (h1, Some 3)) \<and>
         list_at h1 (Some 3) [3, 5, 1] \<and> node_values h1 [3, 5, 1] = [30, 20, 10] \<and>
         (\<exists>h2. reverse_list h1 (Some 3) = Some (Inr (h2, Some 1)) \<and>
               list_at h2 (Some 1) [1, 5, 3] \<and> node_values h2 [1, 5, 3] = [10, 20, 30])"
    by auto
  with l show ?thesis unfolding h_def by blast
qed

subsection \<open>delete\_node\<close>

lemma delete_node_search_absent:
  assumes "list_at h (Some c) (c # rest)" and "\<forall>a\<in>set rest. data (the (h a)) \<noteq> d"
  shows "delete_node_search h d c = Some (Inr (last (c # rest)))"
  using assms
proof (induction rest arbitrary: c)
  case Nil
  then show ?case
    by (subst delete_node_search.simps) (auto simp: list_at_Cons)
next
  case (Cons n rest)
  from Cons.prems(1) obtain cn nn where n:
    "h c = Some cn" "nxt cn = Some n" "h n = Some nn" "list_at h (Some n) (n # rest)"
    by (auto simp: list_at_Cons)
  with Cons.prems(2) have "data nn \<noteq> d" by simp
  with n have "delete_node_search h d c = delete_node_search h d n"
    by (subst delete_node_search.simps) simp
  with Cons.IH [OF n(4)] Cons.prems(2) show ?case by simp
qed

lemma delete_node_search_present:
  assumes "list_at h (Some c) (c # pre @ t # post)"
    and "\<forall>a\<in>set pre. data (the (h a)) \<noteq> d" and "data (the (h t)) = d"
  shows "delete_node_search h d c = Some (Inr (last (c # pre)))"
  using assms
proof (induction pre arbitrary: c)
  case Nil
  then show ?case
    by (subst delete_node_search.simps) (auto simp: list_at_Cons)
next
  case (Cons n pre)
  from Cons.prems(1) obtain cn nn where n:
    "h c = Some cn" "nxt cn = Some n" "h n = Some nn" "list_at h (Some n) (n # pre @ t # post)"
    by (auto simp: list_at_Cons)
  with Cons.prems(2) have "data nn \<noteq> d" by simp
  with n have "delete_node_search h d c = delete_node_search h d n"
    by (subst delete_node_search.simps) simp
  with Cons.IH [OF n(4)] Cons.prems(2,3) show ?case by simp
qed

lemma list_at_last_next:
  assumes "list_at h p (xs @ [a])"
  shows "\<exists>nd. h a = Some nd \<and> nxt nd = None"
proof -
  from assms obtain r where "list_at h r [a]"
    using list_at_suffix by blast
  then show ?thesis by (auto simp: list_at_Cons)
qed

lemma node_values_remove_first:
  assumes "\<forall>a\<in>set pre. data (the (h a)) \<noteq> d" and "data (the (h t)) = d"
  shows "remove1 d (node_values h (pre @ t # post)) = node_values h (pre @ post)"
  using assms by (induction pre) (auto simp: node_values_def)

lemma delete_node_absent:
  assumes "list_at h head as" and "d \<notin> set (node_values h as)"
  shows "delete_node h head d = Some (Inr (False, h, head))"
proof (cases as)
  case Nil
  with assms(1) show ?thesis by (simp add: delete_node_def)
next
  case (Cons c rest)
  with assms(1) obtain cn where cn: "head = Some c" "h c = Some cn"
    by (auto simp: list_at_Cons)
  from assms(2) Cons cn have ne: "data cn \<noteq> d" "\<forall>a\<in>set rest. data (the (h a)) \<noteq> d"
    by (auto simp: node_values_def)
  from assms(1) Cons cn have "list_at h (Some c) (c # rest)" by simp
  then have search: "delete_node_search h d c = Some (Inr (last (c # rest)))"
    using ne(2) by (rule delete_node_search_absent)
  have "c # rest = butlast (c # rest) @ [last (c # rest)]" by simp
  with assms(1) Cons have "list_at h head (butlast (c # rest) @ [last (c # rest)])" by simp
  then obtain nd where "h (last (c # rest)) = Some nd" "nxt nd = None"
    using list_at_last_next by blast
  with cn ne(1) search show ?thesis
    by (simp add: delete_node_def)
qed

lemma delete_node_present:
  assumes "list_at h head (pre @ t # post)"
    and "\<forall>a\<in>set pre. data (the (h a)) \<noteq> d" and "data (the (h t)) = d"
  shows "\<exists>h' head'. delete_node h head d = Some (Inr (True, h', head')) \<and>
           list_at h' head' (pre @ post) \<and>
           node_values h' (pre @ post) = node_values h (pre @ post) \<and>
           h' t = None \<and> (\<forall>a. a \<notin> set (pre @ t # post) \<longrightarrow> h' a = h a)"
proof (cases pre)
  case Nil
  with assms(1) obtain tn where tn: "head = Some t" "h t = Some tn" "list_at h (nxt tn) post"
    by (auto simp: list_at_Cons)
  then have t_post: "t \<notin> set post"
    using list_at_head_notin_tail by blast
  from tn assms(3) have "delete_node h head d = Some (Inr (True, h(t := None), nxt tn))"
    by (simp add: delete_node_def)
  moreover have "list_at (h(t := None)) (nxt tn) post"
    using t_post tn(3) by (simp add: list_at_update)
  moreover have "node_values (h(t := None)) post = node_values h post"
    using t_post by (rule node_values_update)
  ultimately show ?thesis using Nil by simp
next
  case (Cons c pre')
  define front where "front = butlast (c # pre')"
  define p where "p = last (c # pre')"
  have pre: "pre = front @ [p]"
    using Cons by (simp add: front_def p_def)
  from assms(1) have dist: "distinct (front @ p # t # post)"
    using list_at_distinct pre by fastforce
  from assms(1) obtain r where r: "path_at h head front r" "list_at h r (p # t # post)"
    using list_at_suffix [of h head front "p # t # post"] pre by auto
  then obtain pn tn where nodes:
    "r = Some p" "h p = Some pn" "nxt pn = Some t" "h t = Some tn" "list_at h (nxt tn) post"
    by (auto simp: list_at_Cons)
  from assms(1) Cons obtain cn where cn: "head = Some c" "h c = Some cn"
    by (auto simp: list_at_Cons)
  from assms(2) Cons cn have ne: "data cn \<noteq> d" by auto
  have "list_at h (Some c) (c # pre' @ t # post)"
    using assms(1) Cons cn by simp
  then have search: "delete_node_search h d c = Some (Inr p)"
    unfolding p_def using assms(2,3) Cons by (intro delete_node_search_present) auto
  define h' where "h' = (h(p \<mapsto> pn\<lparr>nxt := nxt tn\<rparr>))(t := None)"
  have result: "delete_node h head d = Some (Inr (True, h', head))"
    using cn ne search nodes by (simp add: delete_node_def h'_def)
  have "path_at h' head front r"
    unfolding h'_def using dist r(1) by (simp add: path_at_update)
  moreover have "list_at h' (nxt tn) post"
    unfolding h'_def using dist nodes(5) by (simp add: list_at_update)
  then have "list_at h' r (p # post)"
    using nodes(1) dist by (simp add: list_at_Cons h'_def)
  ultimately have lst: "list_at h' head (pre @ post)"
    unfolding pre by (auto simp: list_at_def path_at_append)
  have vals: "node_values h' (pre @ post) = node_values h (pre @ post)"
    using dist nodes(2) unfolding pre by (auto simp: node_values_def h'_def)
  have outside: "\<forall>a. a \<notin> set (pre @ t # post) \<longrightarrow> h' a = h a"
    unfolding pre by (simp add: h'_def)
  from result lst vals outside show ?thesis
    by (simp add: h'_def)
qed

text \<open>
  C5. For every singly linked list and value \<open>d\<close>: when some node holds \<open>d\<close>,
  \<open>delete_node\<close> returns true, the node removed (and freed) is the first one holding
  \<open>d\<close>, and the remaining nodes keep their order and values; when no node holds \<open>d\<close>
  (the empty list included) it returns false and leaves the heap and the head unchanged.
\<close>

theorem delete_node_first_occurrence:
  assumes "list_at h head as"
  shows "(d \<in> set (node_values h as) \<longrightarrow>
            (\<exists>pre t post h' head'.
               as = pre @ t # post \<and> d \<notin> set (node_values h pre) \<and> data (the (h t)) = d \<and>
               delete_node h head d = Some (Inr (True, h', head')) \<and>
               list_at h' head' (pre @ post) \<and>
               node_values h' (pre @ post) = remove1 d (node_values h as) \<and>
               h' t = None \<and> (\<forall>a. a \<notin> set as \<longrightarrow> h' a = h a))) \<and>
         (d \<notin> set (node_values h as) \<longrightarrow> delete_node h head d = Some (Inr (False, h, head)))"
proof (intro conjI impI)
  assume "d \<in> set (node_values h as)"
  then have "d \<in> set (map (\<lambda>a. data (the (h a))) as)"
    by (simp add: node_values_def)
  then obtain vs1 vs2 where "map (\<lambda>a. data (the (h a))) as = vs1 @ d # vs2" "d \<notin> set vs1"
    by (meson split_list_first)
  then obtain pre t post where split: "as = pre @ t # post"
    "d \<notin> set (map (\<lambda>a. data (the (h a))) pre)" "data (the (h t)) = d"
    by (auto simp: map_eq_append_conv)
  from split(2) have pre: "\<forall>a\<in>set pre. data (the (h a)) \<noteq> d" by auto
  from assms split(1) have "list_at h head (pre @ t # post)" by simp
  from delete_node_present [OF this pre split(3)] obtain h' head' where r:
    "delete_node h head d = Some (Inr (True, h', head'))" "list_at h' head' (pre @ post)"
    "node_values h' (pre @ post) = node_values h (pre @ post)" "h' t = None"
    "\<forall>a. a \<notin> set (pre @ t # post) \<longrightarrow> h' a = h a"
    by blast
  have "remove1 d (node_values h as) = node_values h (pre @ post)"
    unfolding split(1) using pre split(3) by (rule node_values_remove_first)
  with r split show "\<exists>pre t post h' head'.
               as = pre @ t # post \<and> d \<notin> set (node_values h pre) \<and> data (the (h t)) = d \<and>
               delete_node h head d = Some (Inr (True, h', head')) \<and>
               list_at h' head' (pre @ post) \<and>
               node_values h' (pre @ post) = remove1 d (node_values h as) \<and>
               h' t = None \<and> (\<forall>a. a \<notin> set as \<longrightarrow> h' a = h a)"
    by (intro exI [of _ pre] exI [of _ t] exI [of _ post] exI [of _ h'] exI [of _ head'])
       (simp add: node_values_def)
next
  assume "d \<notin> set (node_values h as)"
  with assms show "delete_node h head d = Some (Inr (False, h, head))"
    by (rule delete_node_absent)
qed


theorem delete_node_first_occurrence_witness:
  "list_at [1 \<mapsto> \<lparr>data = 10, nxt = Some 5\<rparr>, 5 \<mapsto> \<lparr>data = 20, nxt = Some 3\<rparr>,
            3 \<mapsto> \<lparr>data = 30, nxt = None\<rparr>] (Some 1) [1, 5, 3] \<and>
   (\<exists>as' h' head'.
      delete_node [1 \<mapsto> \<lparr>data = 10, nxt = Some 5\<rparr>, 5 \<mapsto> \<lparr>data = 20, nxt = Some 3\<rparr>,
                   3 \<mapsto> \<lparr>data = 30, nxt = None\<rparr>] (Some 1) 20 = Some (Inr (True, h', head')) \<and>
      list_at h' head' as' \<and> node_values h' as' = [10, 30]) \<and>
   delete_node [1 \<mapsto> \<lparr>data = 10, nxt = Some 5\<rparr>, 5 \<mapsto> \<lparr>data = 20, nxt = Some 3\<rparr>,
                3 \<mapsto> \<lparr>data = 30, nxt = None\<rparr>] (Some 1) 40
     = Some (Inr (False, [1 \<mapsto> \<lparr>data = 10, nxt = Some 5\<rparr>, 5 \<mapsto> \<lparr>data = 20, nxt = Some 3\<rparr>,
                          3 \<mapsto> \<lparr>data = 30, nxt = None\<rparr>], Some 1))"
proof -
  define h :: heap where "h = [1 \<mapsto> \<lparr>data = 10, nxt = Some 5\<rparr>,
    5 \<mapsto> \<lparr>data = 20, nxt = Some 3\<rparr>, 3 \<mapsto> \<lparr>data = 30, nxt = None\<rparr>]"
  have l: "list_at h (Some 1) [1, 5, 3]"
    by (simp add: h_def list_at_def)
  have v: "node_values h [1, 5, 3] = [10, 20, 30]"
    by (simp add: h_def node_values_def)
  from delete_node_first_occurrence [OF l, of 20] v
  have "\<exists>as' h' head'. delete_node h (Some 1) 20 = Some (Inr (True, h', head')) \<and>
          list_at h' head' as' \<and> node_values h' as' = [10, 30]"
    by auto
  moreover from delete_node_first_occurrence [OF l, of 40] v
  have "delete_node h (Some 1) 40 = Some (Inr (False, h, Some 1))"
    by simp
  ultimately show ?thesis
    using l unfolding h_def by blast
qed

section \<open>Properties of the dynamic array\<close>

declare insert_shift.simps [simp del] delete_shift.simps [simp del]

lemma double_no_wrap:
  fixes c :: "64 word"
  assumes "c \<le> c * 2"
  shows "unat (c * 2) = 2 * unat c"
proof (rule ccontr)
  assume neq: "unat (c * 2) \<noteq> 2 * unat c"
  have lt: "unat c < 2 ^ 64" using unsigned_less [of c] by simp
  have "unat (c * 2) = (unat c * 2) mod 2 ^ 64"
    by (simp add: unat_word_ariths)
  with neq have big: "2 ^ 64 \<le> unat c * 2"
    by (metis mod_less mult.commute not_le)
  then have "(unat c * 2) mod 2 ^ 64 = unat c * 2 - 2 ^ 64"
    using lt by (simp add: mod_if)
  with \<open>unat (c * 2) = (unat c * 2) mod 2 ^ 64\<close> lt have "unat (c * 2) < unat c"
    using big by linarith
  with assms show False by (simp add: word_le_nat_alt)
qed

lemma halve_unat:
  fixes c :: "64 word"
  shows "unat (c div 2) = unat c div 2" and "unat (c div 4) = unat c div 4"
  by (simp_all add: unat_div)


lemma append_full:
  assumes "arr_size a = arr_capacity a"
  shows "append (Some a) v realloc_ok =
     (if realloc_ok \<and> arr_capacity a \<le> arr_capacity a * 2
      then (True, Some \<lparr>arr_data = (arr_data a)(unat (arr_size a) := v),
                        arr_size = arr_size a + 1, arr_capacity = arr_capacity a * 2\<rparr>)
      else (False, Some a))"
  using assms by (auto simp: append_def resize_array_def not_less)

lemma insert_full:
  assumes "arr_size a = arr_capacity a" and "index \<le> arr_size a"
  shows "insert (Some a) index v realloc_ok =
     (if realloc_ok \<and> arr_capacity a \<le> arr_capacity a * 2
      then (True, Some \<lparr>arr_data = (insert_shift (arr_data a) (arr_size a) index)(unat index := v),
                        arr_size = arr_size a + 1, arr_capacity = arr_capacity a * 2\<rparr>)
      else (False, Some a))"
  using assms by (auto simp: insert_def resize_array_def not_less)

lemma quarter_le_half:
  fixes c :: "64 word"
  shows "c div 4 \<le> c div 2"
  by (simp add: word_le_nat_alt halve_unat div_le_mono2)

lemma delete_in_range:
  assumes "index < arr_size a"
  shows "delete (Some a) index realloc_ok =
     (True, Some \<lparr>arr_data = delete_shift (arr_data a) index (arr_size a),
                  arr_size = arr_size a - 1,
                  arr_capacity =
                    (if 4 < arr_capacity a \<and> arr_size a - 1 < arr_capacity a div 4 \<and> realloc_ok
                     then arr_capacity a div 2 else arr_capacity a)\<rparr>)"
proof -
  have "\<not> arr_capacity a div 2 < arr_size a - 1" if "arr_size a - 1 < arr_capacity a div 4"
    using that quarter_le_half [of "arr_capacity a"] by simp
  with assms show ?thesis
    by (auto simp: delete_def resize_array_def Let_def not_le)
qed





text \<open>
  C8 fails for an array created with capacity \<open>0\<close>: \<open>append\<close> doubles the capacity
  \<open>0\<close> to \<open>0\<close>, \<open>resize_array\<close> accepts it (it is not smaller than the size \<open>0\<close>),
  and when \<^verbatim>\<open>realloc\<close> returns a block the element is stored at index \<open>0\<close>: \<open>append\<close>
  reports success with size \<open>1\<close> and capacity \<open>0\<close>.
\<close>

theorem append_zero_capacity:
  "append (create_array 0 True (Some (\<lambda>i. 0))) 10 True
     = (True, Some \<lparr>arr_data = (\<lambda>i. 0)(0 := 10), arr_size = 1, arr_capacity = 0\<rparr>) \<and>
   \<not> (1 :: 64 word) \<le> 0"
  by (simp add: append_def create_array_def resize_array_def)


text \<open>
  Capacity \<open>0\<close> is the only way to break the invariant: from a state with
  \<open>size \<le> capacity\<close> and a positive capacity, every operation that reports success
  leads to such a state again.
\<close>

lemma inc_le_double:
  fixes c :: "64 word"
  assumes "0 < c" and "c \<le> c * 2"
  shows "c + 1 \<le> c * 2" and "0 < c * 2"
proof -
  have d: "unat (c * 2) = 2 * unat c" using assms(2) by (rule double_no_wrap)
  have pos: "0 < unat c" using assms(1) by (simp add: word_less_nat_alt)
  have "unat (c + 1) \<le> unat c + 1"
    by (simp add: unat_word_ariths)
  with d pos show "c + 1 \<le> c * 2" by (simp add: word_le_nat_alt)
  from d pos show "0 < c * 2" by (simp add: word_less_nat_alt)
qed

lemma append_keeps_invariant:
  assumes "arr_size a \<le> arr_capacity a" and "0 < arr_capacity a"
    and "append (Some a) v realloc_ok = (True, r)"
  shows "\<exists>a'. r = Some a' \<and> arr_size a' \<le> arr_capacity a' \<and> 0 < arr_capacity a'"
proof (cases "arr_size a = arr_capacity a")
  case True
  with assms(3) have ok: "realloc_ok \<and> arr_capacity a \<le> arr_capacity a * 2"
    and r: "r = Some \<lparr>arr_data = (arr_data a)(unat (arr_size a) := v),
                       arr_size = arr_size a + 1, arr_capacity = arr_capacity a * 2\<rparr>"
    by (auto simp: append_full split: if_splits)
  with inc_le_double [OF assms(2)] True show ?thesis by simp
next
  case False
  with assms(1) have less: "arr_size a < arr_capacity a" by simp
  then have "arr_size a + 1 \<le> arr_capacity a" by (rule inc_le)
  moreover from less have "\<not> arr_capacity a \<le> arr_size a" by simp
  ultimately show ?thesis
    using assms(2,3) by (auto simp: append_def)
qed

lemma insert_keeps_invariant:
  assumes "arr_size a \<le> arr_capacity a" and "0 < arr_capacity a"
    and "insert (Some a) index v realloc_ok = (True, r)"
  shows "\<exists>a'. r = Some a' \<and> arr_size a' \<le> arr_capacity a' \<and> 0 < arr_capacity a'"
proof -
  from assms(3) have idx: "index \<le> arr_size a"
    by (auto simp: insert_def split: if_splits)
  show ?thesis
  proof (cases "arr_size a = arr_capacity a")
    case True
    with assms(3) idx have ok: "realloc_ok \<and> arr_capacity a \<le> arr_capacity a * 2"
      and r: "r = Some \<lparr>arr_data = (insert_shift (arr_data a) (arr_size a) index)(unat index := v),
                         arr_size = arr_size a + 1, arr_capacity = arr_capacity a * 2\<rparr>"
      by (auto simp: insert_full split: if_splits)
    with inc_le_double [OF assms(2)] True show ?thesis by simp
  next
    case False
    with assms(1) have less: "arr_size a < arr_capacity a" by simp
    then have "arr_size a + 1 \<le> arr_capacity a" by (rule inc_le)
    moreover from less idx have "\<not> arr_capacity a \<le> arr_size a" "\<not> arr_size a < index"
      by simp_all
    then have "insert (Some a) index v realloc_ok =
        (True, Some (a\<lparr>arr_data := (insert_shift (arr_data a) (arr_size a) index)(unat index := v),
                          arr_size := arr_size a + 1\<rparr>))"
      by (simp add: insert_def)
    ultimately show ?thesis
      using assms(2,3) by auto
  qed
qed

lemma delete_keeps_invariant:
  assumes "arr_size a \<le> arr_capacity a" and "0 < arr_capacity a"
    and "delete (Some a) index realloc_ok = (True, r)"
  shows "\<exists>a'. r = Some a' \<and> arr_size a' \<le> arr_capacity a' \<and> 0 < arr_capacity a'"
proof -
  from assms(3) have idx: "index < arr_size a"
    by (auto simp: delete_def not_le split: if_splits)
  then have "arr_size a \<noteq> 0" by auto
  then have dec: "arr_size a - 1 \<le> arr_size a"
    by (simp add: word_le_nat_alt unat_minus_one)
  have half: "arr_size a - 1 \<le> arr_capacity a div 2 \<and> 0 < arr_capacity a div 2"
    if "4 < arr_capacity a" "arr_size a - 1 < arr_capacity a div 4"
  proof -
    from that(2) quarter_le_half [of "arr_capacity a"]
    have "arr_size a - 1 \<le> arr_capacity a div 2" by simp
    moreover from that(1) have "0 < arr_capacity a div 2"
      by (simp add: word_less_nat_alt halve_unat)
    ultimately show ?thesis by simp
  qed
  from assms(3) idx have "r = Some \<lparr>arr_data = delete_shift (arr_data a) index (arr_size a),
                  arr_size = arr_size a - 1,
                  arr_capacity =
                    (if 4 < arr_capacity a \<and> arr_size a - 1 < arr_capacity a div 4 \<and> realloc_ok
                     then arr_capacity a div 2 else arr_capacity a)\<rparr>"
    by (simp add: delete_in_range)
  with half dec assms(1,2) show ?thesis by auto
qed

section \<open>Failure results\<close>

text \<open>
  C4, as the claim states it, fails for the operations that take an index: with an
  index out of range \<open>get\<close> (as \<open>insert\<close> and \<open>delete\<close>) of the dynamic array returns
  \<^verbatim>\<open>false\<close>, a \<^verbatim>\<open>bool\<close> whose value is 0, and \<open>delete_element\<close> (as \<open>insert_element\<close>)
  returns the unchanged size, here 3; neither is \<open>-1\<close> or a null pointer.
\<close>

theorem index_failure_counterexample:
  "get (create_array 2 True (Some (\<lambda>i. 0))) 5 True = (False, None) \<and>
   c_bool (fst (get (create_array 2 True (Some (\<lambda>i. 0))) 5 True)) \<noteq> - 1 \<and>
   delete_element [10, 20, 30] 3 7 = Inr ([10, 20, 30], 3) \<and> (3 :: int) \<noteq> - 1"
  by (simp add: get_def create_array_def c_bool_def delete_element_def)

text \<open>
  C4, amended. An index out of range makes \<open>get\<close>, \<open>insert\<close> and \<open>delete\<close> return
  \<^verbatim>\<open>false\<close> and leave the dynamic array as it was, and makes \<open>insert_element\<close> and
  \<open>delete_element\<close> return the size they were given with the array unchanged; a failed
  allocation makes \<open>create_array\<close> and \<open>create_node\<close> return \<^verbatim>\<open>NULL\<close>; a source or
  destination that does not open makes \<open>copy_file\<close> return \<open>-1\<close>.
\<close>

theorem failure_results:
  "(arr_size a \<le> index \<longrightarrow> get (Some a) index value_ok = (False, None)) \<and>
   (arr_size a < index \<longrightarrow> insert (Some a) index v realloc_ok = (False, Some a)) \<and>
   (arr_size a \<le> index \<longrightarrow> delete (Some a) index realloc_ok = (False, Some a)) \<and>
   (position < 0 \<or> sz < position \<longrightarrow> insert_element arr sz element position = Inr (arr, sz)) \<and>
   (position < 0 \<or> sz \<le> position \<longrightarrow> delete_element arr sz position = Inr (arr, sz)) \<and>
   (\<not> malloc_struct \<or> malloc_data = None \<longrightarrow>
      create_array initial_capacity malloc_struct malloc_data = None) \<and>
   create_node h None d = (h, None) \<and>
   (source_open env = None \<or> \<not> dest_open env \<longrightarrow> fst (copy_file env) = - 1)"
  by (auto simp: get_def insert_def delete_def insert_element_def delete_element_def
        create_array_def create_node_def copy_file_def split: option.splits prod.splits bool.splits)

theorem failure_results_witness:
  "arr_size \<lparr>arr_data = (\<lambda>i. 0), arr_size = 2, arr_capacity = 4\<rparr> < 5 \<and>
   get (Some \<lparr>arr_data = (\<lambda>i. 0), arr_size = 2, arr_capacity = 4\<rparr>) 5 True = (False, None) \<and>
   fst (insert (Some \<lparr>arr_data = (\<lambda>i. 0), arr_size = 2, arr_capacity = 4\<rparr>) 5 9 True) = False \<and>
   fst (delete (Some \<lparr>arr_data = (\<lambda>i. 0), arr_size = 2, arr_capacity = 4\<rparr>) 5 True) = False \<and>
   (3 :: int) < 7 \<and> insert_element [10, 20, 30] 3 99 7 = Inr ([10, 20, 30], 3) \<and>
   delete_element [10, 20, 30] 3 7 = Inr ([10, 20, 30], 3) \<and>
   create_array 8 True None = None \<and>
   source_open \<lparr>buffer_malloc = True, source_open = None, source_read_error = False,
                 source_size = 0, dest_open = True, fwrite_result = (\<lambda>k n. n)\<rparr> = None \<and>
   fst (copy_file \<lparr>buffer_malloc = True, source_open = None, source_read_error = False,
                    source_size = 0, dest_open = True, fwrite_result = (\<lambda>k n. n)\<rparr>) = - 1"
  using failure_results [of "\<lparr>arr_data = (\<lambda>i. 0), arr_size = 2, arr_capacity = 4\<rparr>" 5 True 9 True
      7 3 "[10, 20, 30]" 99 True None 8 Map.empty 0
      "\<lparr>buffer_malloc = True, source_open = None, source_read_error = False,
        source_size = 0, dest_open = True, fwrite_result = (\<lambda>k n. n)\<rparr>"]
  by simp

section \<open>Properties of is\_prime and next\_prime\<close>

lemma sint32_range: "- 2147483648 \<le> sint (w :: 32 word) \<and> sint w < 2147483648"
  using sint_ge [of w] sint_lt [of w] by simp

lemma sint32_add:
  assumes "- 2147483648 \<le> sint a + sint b" and "sint a + sint b < 2147483648"
  shows "sint (a + b :: 32 word) = sint a + sint b"
  using assms by (simp add: sint_word_ariths signed_take_bit_int_eq_self)

lemma sint32_mult:
  assumes "- 2147483648 \<le> sint a * sint b" and "sint a * sint b < 2147483648"
  shows "sint (a * b :: 32 word) = sint a * sint b"
  using assms by (simp add: sint_word_ariths signed_take_bit_int_eq_self)

lemma c_rem_positive:
  assumes "0 \<le> sint n" and "0 < sint i"
  shows "c_rem n i = Inr 0 \<longleftrightarrow> sint i dvd sint n"
    and "\<exists>r. c_rem n i = Inr r"
proof -
  from assms(2) have nz: "i \<noteq> 0" by auto
  have smod: "sint n smod sint i = sint n mod sint i"
    using assms by (simp add: signed_modulo_int_def sgn_if)
  have "sint n mod sint i < sint i"
    using assms(2) by (rule pos_mod_bound)
  moreover have "0 \<le> sint n mod sint i"
    using assms(2) by simp
  ultimately have range: "0 \<le> sint n mod sint i" "sint n mod sint i < 2147483648"
    using sint32_range [of i] by linarith+
  have "(word_of_int (sint n mod sint i) :: 32 word) = 0 \<longleftrightarrow> sint n mod sint i = 0"
  proof
    assume "(word_of_int (sint n mod sint i) :: 32 word) = 0"
    then have "2 ^ 32 dvd sint n mod sint i"
      by (simp add: word_of_int_eq_0_iff)
    with range show "sint n mod sint i = 0"
      by (auto dest: zdvd_imp_le)
  qed simp
  then show "c_rem n i = Inr 0 \<longleftrightarrow> sint i dvd sint n"
    using nz smod by (simp add: c_rem_def dvd_eq_mod_eq_0)
  show "\<exists>r. c_rem n i = Inr r"
    using nz by (simp add: c_rem_def)
qed


lemma wheel_step1:
  fixes k m :: int
  assumes "k mod 6 = 5" and "\<not> 2 dvd m" and "\<not> 3 dvd m" and "k < m"
  shows "k + 2 \<le> m"
  using assms by presburger

lemma wheel_step2:
  fixes k m :: int
  assumes "k mod 6 = 5" and "\<not> 2 dvd m" and "\<not> 3 dvd m" and "k + 2 < m"
  shows "k + 6 \<le> m"
  using assms by presburger

lemma is_prime_loop_returns:
  assumes "\<not> 2 dvd sint n" and "\<not> 3 dvd sint n"
    and "5 \<le> sint i" and "sint i \<le> sint n" and "sint i mod 6 = 5"
  shows "\<exists>b. is_prime_loop n i = Some (Inr b)"
  using assms(3-5)
proof (induction "nat (sint n - sint i)" arbitrary: i rule: less_induct)
  case less
  show ?case
  proof (cases "sint (i * i) \<le> sint n")
    case False
    then have "is_prime_loop n i = Some (Inr True)"
      by (subst is_prime_loop.simps) simp
    then show ?thesis by blast
  next
    case True
    have npos: "0 \<le> sint n" using less.prems by linarith
    from c_rem_positive [OF npos, of i] less.prems
    obtain r1 where r1: "c_rem n i = Inr r1" "r1 = 0 \<longleftrightarrow> sint i dvd sint n"
      by auto
    show ?thesis
    proof (cases "r1 = 0")
      case True
      with \<open>sint (i * i) \<le> sint n\<close> r1 have "is_prime_loop n i = Some (Inr False)"
        by (subst is_prime_loop.simps) simp
      then show ?thesis by blast
    next
      case r1_nz: False
      with r1 have "sint i \<noteq> sint n" by auto
      with less.prems have "sint i < sint n" by simp
      with less.prems assms(1,2) have le2: "sint i + 2 \<le> sint n"
        by (intro wheel_step1)
      have s2: "sint (i + 2) = sint i + 2"
        using le2 less.prems sint32_range [of n] by (subst sint32_add) simp_all
      from c_rem_positive [OF npos, of "i + 2"] s2 less.prems
      obtain r2 where r2: "c_rem n (i + 2) = Inr r2" "r2 = 0 \<longleftrightarrow> sint i + 2 dvd sint n"
        by auto
      show ?thesis
      proof (cases "r2 = 0")
        case True
        with \<open>sint (i * i) \<le> sint n\<close> r1 r1_nz r2 have "is_prime_loop n i = Some (Inr False)"
          by (subst is_prime_loop.simps) simp
        then show ?thesis by blast
      next
        case r2_nz: False
        with r2 have "sint i + 2 \<noteq> sint n" by auto
        with le2 have "sint i + 2 < sint n" by simp
        with less.prems assms(1,2) have le6: "sint i + 6 \<le> sint n"
          by (intro wheel_step2)
        have s6: "sint (i + 6) = sint i + 6"
          using le6 less.prems sint32_range [of n] by (subst sint32_add) simp_all
        have "\<exists>b. is_prime_loop n (i + 6) = Some (Inr b)"
        proof (rule less.hyps)
          show "nat (sint n - sint (i + 6)) < nat (sint n - sint i)"
            using s6 le6 by linarith
          show "5 \<le> sint (i + 6)" "sint (i + 6) \<le> sint n"
            using s6 le6 less.prems by linarith+
          show "sint (i + 6) mod 6 = 5"
            using s6 less.prems(3) by presburger
        qed
        moreover have "is_prime_loop n i = is_prime_loop n (i + 6)"
          using \<open>sint (i * i) \<le> sint n\<close> r1 r1_nz r2 r2_nz
          by (subst is_prime_loop.simps) simp
        ultimately show ?thesis by simp
      qed
    qed
  qed
qed

lemma is_prime_returns: "\<exists>b. is_prime n = Some (Inr b)"
proof (cases "sint n \<le> 3")
  case True
  then show ?thesis by (auto simp: is_prime_def)
next
  case False
  then have big: "3 < sint n" by simp
  then have npos: "0 \<le> sint n" by simp
  have two: "c_rem n 2 = Inr 0 \<longleftrightarrow> 2 dvd sint n"
    using c_rem_positive(1) [OF npos, of 2] by simp
  have three: "c_rem n 3 = Inr 0 \<longleftrightarrow> 3 dvd sint n"
    using c_rem_positive(1) [OF npos, of 3] by simp
  show ?thesis
  proof (cases "2 dvd sint n \<or> 3 dvd sint n")
    case True
    with big two three show ?thesis by (auto simp: is_prime_def)
  next
    case False
    then have nd: "\<not> 2 dvd sint n" "\<not> 3 dvd sint n" by simp_all
    with big have "5 \<le> sint n" by presburger
    then have "\<exists>b. is_prime_loop n 5 = Some (Inr b)"
      using nd by (intro is_prime_loop_returns) simp_all
    with big two three nd show ?thesis by (simp add: is_prime_def)
  qed
qed

lemma is_prime_two: "is_prime 2 = Some (Inr True)"
  by (simp add: is_prime_def)

lemma next_prime_loop_returns:
  "\<exists>r. next_prime_loop c = Some (Inr r) \<and> is_prime r = Some (Inr True)"
proof (induction "unat (2 - c)" arbitrary: c rule: less_induct)
  case less
  from is_prime_returns obtain b where b: "is_prime c = Some (Inr b)" by blast
  show ?case
  proof (cases b)
    case True
    with b show ?thesis by (subst next_prime_loop.simps) simp
  next
    case False
    with b is_prime_two have "c \<noteq> 2" by auto
    define w where "w = 2 - c"
    from \<open>c \<noteq> 2\<close> have "w \<noteq> 0" by (simp add: w_def)
    then have "unat (w - 1) < unat w"
      by (simp add: unat_minus_one unat_gt_0)
    moreover have "2 - (c + 1) = w - 1" by (simp add: w_def)
    ultimately have "unat (2 - (c + 1)) < unat (2 - c)"
      by (simp only: w_def)
    then have "\<exists>r. next_prime_loop (c + 1) = Some (Inr r) \<and> is_prime r = Some (Inr True)"
      by (rule less.hyps)
    moreover have "next_prime_loop c = next_prime_loop (c + 1)"
      using b False by (subst next_prime_loop.simps) simp
    ultimately show ?thesis by simp
  qed
qed

lemma next_prime_returns:
  "\<exists>r. next_prime n = Some (Inr r) \<and> is_prime r = Some (Inr True)"
  using next_prime_loop_returns [of "n + 1"] is_prime_two by (simp add: next_prime_def)


subsection \<open>Overflow at the top of the range\<close>

lemma is_prime_below_two: "sint c \<le> 1 \<Longrightarrow> is_prime c = Some (Inr False)"
  by (simp add: is_prime_def)

lemma next_prime_loop_from_below:
  assumes "sint c \<le> 2"
  shows "next_prime_loop c = Some (Inr 2)"
  using assms
proof (induction "nat (2 - sint c)" arbitrary: c)
  case 0
  then have "sint c = sint (2 :: 32 word)" by simp
  then have "c = 2" by (simp only: signed_word_eqI)
  then show ?case
    by (subst next_prime_loop.simps) (simp add: is_prime_two)
next
  case (Suc d)
  then have le: "sint c \<le> 1" by linarith
  have s1: "sint (c + 1) = sint c + 1"
    using le sint32_range [of c] by (subst sint32_add) simp_all
  have "next_prime_loop (c + 1) = Some (Inr 2)"
    using Suc.hyps(2) s1 le by (intro Suc.hyps(1)) linarith+
  then show ?case
    using is_prime_below_two [OF le] by (subst next_prime_loop.simps) simp
qed

subsection \<open>is\_prime below the first overflow\<close>

text \<open>
  \<open>46337 * 46337 = 2147117569\<close>: for \<open>n\<close> below it the loop leaves with an \<open>i\<close> of at
  most \<open>46337\<close>, whose square still fits 32 bits, so \<open>is_prime\<close> decides primality.
\<close>

lemma square_le_bound:
  fixes k :: int
  assumes "0 \<le> k" and "k \<le> 46337"
  shows "k * k \<le> 2147117569"
  using mult_mono [of k 46337 k 46337] assms by simp

lemma no_divisor_prime:
  fixes m k :: int
  assumes "1 < m" and "m < k * k" and "0 < k" and "\<forall>d. 1 < d \<and> d < k \<longrightarrow> \<not> d dvd m"
  shows "prime_number m"
  unfolding prime_number_def
proof (intro conjI ballI notI)
  show "1 < m" by fact
next
  fix d assume d: "d \<in> {2..<m}" and dvd: "d dvd m"
  then obtain e where e: "m = d * e" by (auto simp: dvd_def)
  from d assms(4) dvd have kd: "k \<le> d" by force
  from d e assms(1) have epos: "0 < e"
    by (metis atLeastLessThan_iff less_le_trans zero_less_mult_pos zero_less_numeral less_trans zero_less_one)
  from d e have "e \<noteq> 1" by auto
  with epos have e1: "1 < e" by simp
  have "e dvd m" using e by simp
  with assms(4) e1 have "k \<le> e" by force
  with kd assms(3) have "k * k \<le> d * e"
    by (intro mult_mono) simp_all
  with e assms(2) show False by simp
qed

lemma is_prime_loop_exact:
  assumes "\<not> 2 dvd sint n" and "\<not> 3 dvd sint n" and "3 < sint n" and "sint n < 2147117569"
    and "5 \<le> sint i" and "sint i mod 6 = 5" and "sint i \<le> 46337"
    and "\<forall>d. 1 < d \<and> d < sint i \<longrightarrow> \<not> d dvd sint n"
  shows "is_prime_loop n i = Some (Inr (prime_number (sint n)))"
  using assms(5-8)
proof (induction "nat (46337 - sint i)" arbitrary: i rule: less_induct)
  case less
  define k where "k = sint i"
  define m where "m = sint n"
  note prems = less.prems [folded k_def m_def]
  note nd = assms(1-4) [folded m_def]
  have kk: "k * k \<le> 2147117569"
    using prems by (intro square_le_bound) simp_all
  have "0 \<le> k * k" by simp
  then have "- 2147483648 \<le> sint i * sint i" "sint i * sint i < 2147483648"
    using kk unfolding k_def by linarith+
  then have sq: "sint (i * i) = k * k"
    unfolding k_def by (rule sint32_mult)
  have npos: "0 \<le> sint n" using assms(3) by simp
  show ?case
  proof (cases "k * k \<le> m")
    case False
    then have "prime_number m"
      using nd prems by (intro no_divisor_prime [of m k]) simp_all
    moreover have "is_prime_loop n i = Some (Inr True)"
      using False sq by (subst is_prime_loop.simps) (simp add: m_def)
    ultimately show ?thesis by (simp add: m_def)
  next
    case True
    have k5: "5 * k \<le> k * k" using prems(1) by (intro mult_right_mono) simp_all
    with True prems have km: "k + 2 < m" by linarith
    have "k < 46337"
    proof (rule ccontr)
      assume "\<not> k < 46337"
      with prems have "k = 46337" by simp
      with True nd show False by simp
    qed
    with prems(2) have k6: "k + 6 \<le> 46337" by presburger
    from c_rem_positive [OF npos, of i] prems
    obtain r1 where r1: "c_rem n i = Inr r1" "r1 = 0 \<longleftrightarrow> k dvd m"
      unfolding k_def m_def by auto
    have s2: "sint (i + 2) = k + 2"
      unfolding k_def using k6 prems(1) by (subst sint32_add) (simp_all add: k_def)
    from c_rem_positive [OF npos, of "i + 2"] s2 prems
    obtain r2 where r2: "c_rem n (i + 2) = Inr r2" "r2 = 0 \<longleftrightarrow> k + 2 dvd m"
      unfolding m_def by auto
    have s6: "sint (i + 6) = k + 6"
      unfolding k_def using k6 prems(1) by (subst sint32_add) (simp_all add: k_def)
    show ?thesis
    proof (cases "k dvd m \<or> k + 2 dvd m")
      case divides: True
      then have "is_prime_loop n i = Some (Inr False)"
        using True sq r1 r2 by (subst is_prime_loop.simps) (auto simp: m_def)
      moreover from divides km prems(1) have "\<exists>d\<in>{2..<m}. d dvd m"
        by (auto intro: bexI [of _ k] bexI [of _ "k + 2"])
      then have "\<not> prime_number m" by (auto simp: prime_number_def)
      ultimately show ?thesis by (simp add: m_def)
    next
      case none: False
      have "is_prime_loop n (i + 6) = Some (Inr (prime_number (sint n)))"
      proof (rule less.hyps)
        show "nat (46337 - sint (i + 6)) < nat (46337 - sint i)"
          using s6 k6 by (simp add: k_def)
        show "5 \<le> sint (i + 6)" "sint (i + 6) \<le> 46337"
          using s6 k6 prems(1) by simp_all
        show "sint (i + 6) mod 6 = 5"
          using s6 prems(2) by presburger
        show "\<forall>d. 1 < d \<and> d < sint (i + 6) \<longrightarrow> \<not> d dvd sint n"
        proof (intro allI impI)
          fix d assume d: "1 < d \<and> d < sint (i + 6)"
          with s6 have "d < k + 6" by simp
          with prems(2) have "d < k \<or> d = k \<or> d = k + 2 \<or> 2 dvd d \<or> 3 dvd d"
            by presburger
          then consider "d < k" | "d = k" | "d = k + 2" | "2 dvd d" | "3 dvd d"
            by blast
          then show "\<not> d dvd sint n"
          proof cases
            case 1
            with d prems(4) show ?thesis by (simp add: m_def)
          next
            case 2
            with none show ?thesis by (simp add: m_def)
          next
            case 3
            with none show ?thesis by (simp add: m_def)
          next
            case 4
            with nd(1) show ?thesis unfolding m_def by (meson dvd_trans)
          next
            case 5
            with nd(2) show ?thesis unfolding m_def by (meson dvd_trans)
          qed
        qed
      qed
      moreover have "is_prime_loop n i = is_prime_loop n (i + 6)"
        using True sq r1 r2 none by (subst is_prime_loop.simps) (simp add: m_def)
      ultimately show ?thesis by simp
    qed
  qed
qed

lemma is_prime_exact:
  assumes "sint n < 2147117569"
  shows "is_prime n = Some (Inr (prime_number (sint n)))"
proof -
  consider (small) "sint n \<le> 1" | (two) "sint n = 2" | (three) "sint n = 3" | (big) "3 < sint n"
    by linarith
  then show ?thesis
  proof cases
    case small
    then show ?thesis by (simp add: is_prime_def prime_number_def)
  next
    case two
    then show ?thesis by (simp add: is_prime_def prime_number_def)
  next
    case three
    have "{2..<3} = {2 :: int}" by auto
    with three show ?thesis by (simp add: is_prime_def prime_number_def)
  next
    case big
    then have npos: "0 \<le> sint n" by simp
    have two: "c_rem n 2 = Inr 0 \<longleftrightarrow> 2 dvd sint n"
      using c_rem_positive(1) [OF npos, of 2] by simp
    have three: "c_rem n 3 = Inr 0 \<longleftrightarrow> 3 dvd sint n"
      using c_rem_positive(1) [OF npos, of 3] by simp
    show ?thesis
    proof (cases "2 dvd sint n \<or> 3 dvd sint n")
      case True
      with big have "\<exists>d\<in>{2..<sint n}. d dvd sint n"
        by (auto intro: bexI [of _ 2] bexI [of _ 3])
      then have "\<not> prime_number (sint n)" by (auto simp: prime_number_def)
      with True big two three show ?thesis by (auto simp: is_prime_def)
    next
      case False
      then have nd: "\<not> 2 dvd sint n" "\<not> 3 dvd sint n" by simp_all
      have low: "\<forall>d. 1 < d \<and> d < sint (5 :: 32 word) \<longrightarrow> \<not> d dvd sint n"
      proof (intro allI impI)
        fix d :: int assume "1 < d \<and> d < sint (5 :: 32 word)"
        then have "d = 2 \<or> d = 3 \<or> d = 4" by auto
        moreover have "\<not> 4 dvd sint n" using nd(1) by presburger
        ultimately show "\<not> d dvd sint n" using nd by auto
      qed
      have "is_prime_loop n 5 = Some (Inr (prime_number (sint n)))"
        using nd big assms low by (intro is_prime_loop_exact) simp_all
      with big two three nd show ?thesis by (simp add: is_prime_def)
    qed
  qed
qed

lemma prime_number_two: "prime_number 2"
  by (simp add: prime_number_def)

lemma next_prime_loop_least:
  assumes "prime_number p" and "p < 2147117569" and "sint c \<le> p"
    and "\<forall>q. lo < q \<and> q < sint c \<longrightarrow> \<not> prime_number q" and "lo < sint c"
  shows "\<exists>r. next_prime_loop c = Some (Inr r) \<and> prime_number (sint r) \<and> lo < sint r \<and>
           (\<forall>q. lo < q \<and> q < sint r \<longrightarrow> \<not> prime_number q)"
  using assms(3-5)
proof (induction "nat (p - sint c)" arbitrary: c rule: less_induct)
  case less
  from less.prems(1) assms(2) have exact: "is_prime c = Some (Inr (prime_number (sint c)))"
    by (intro is_prime_exact) simp
  show ?case
  proof (cases "prime_number (sint c)")
    case True
    with exact have "next_prime_loop c = Some (Inr c)"
      by (subst next_prime_loop.simps) simp
    with True less.prems show ?thesis by blast
  next
    case False
    with assms(1) have "sint c \<noteq> p" by auto
    with less.prems(1) have lt: "sint c < p" by simp
    have s1: "sint (c + 1) = sint c + 1"
      using lt assms(2) sint32_range [of c] by (subst sint32_add) simp_all
    have "\<exists>r. next_prime_loop (c + 1) = Some (Inr r) \<and> prime_number (sint r) \<and> lo < sint r \<and>
           (\<forall>q. lo < q \<and> q < sint r \<longrightarrow> \<not> prime_number q)"
    proof (rule less.hyps)
      show "nat (p - sint (c + 1)) < nat (p - sint c)" using s1 lt by simp
      show "sint (c + 1) \<le> p" using s1 lt by simp
      show "lo < sint (c + 1)" using s1 less.prems(3) by simp
      show "\<forall>q. lo < q \<and> q < sint (c + 1) \<longrightarrow> \<not> prime_number q"
      proof (intro allI impI)
        fix q assume "lo < q \<and> q < sint (c + 1)"
        with s1 have "q < sint c \<or> q = sint c" by auto
        with \<open>lo < q \<and> q < sint (c + 1)\<close> less.prems(2) False show "\<not> prime_number q"
          by auto
      qed
    qed
    moreover have "next_prime_loop c = next_prime_loop (c + 1)"
      using exact False by (subst next_prime_loop.simps) simp
    ultimately show ?thesis by simp
  qed
qed

lemma next_prime_least:
  assumes "prime_number p" and "sint n < p" and "p < 2147117569"
  shows "\<exists>r. next_prime n = Some (Inr r) \<and> prime_number (sint r) \<and> sint n < sint r \<and>
           (\<forall>q. sint n < q \<and> q < sint r \<longrightarrow> \<not> prime_number q)"
proof (cases "sint n < 2")
  case True
  have "\<not> prime_number q" if "q < 2" for q
    using that by (simp add: prime_number_def)
  with True prime_number_two show ?thesis
    by (simp add: next_prime_def)
next
  case False
  have s1: "sint (n + 1) = sint n + 1"
    using assms(2,3) sint32_range [of n] by (subst sint32_add) simp_all
  have "\<exists>r. next_prime_loop (n + 1) = Some (Inr r) \<and> prime_number (sint r) \<and> sint n < sint r \<and>
           (\<forall>q. sint n < q \<and> q < sint r \<longrightarrow> \<not> prime_number q)"
    using assms s1 by (intro next_prime_loop_least [of p]) auto
  with False show ?thesis by (simp add: next_prime_def)
qed

lemma binary_search_recursive_returns:
  "\<exists>y. binary_search_recursive arr left right target = Some y"
  by (simp add: binary_search_recursive_eq_loop)

subsection \<open>is\_prime accepts only primes\<close>

text \<open>
  Also where \<^verbatim>\<open>i * i\<close> overflows: the loop tests every candidate divisor in turn, and
  when it leaves with \<open>true\<close> the square of \<open>i\<close> exceeds \<open>n\<close>, either as computed
  (\<open>i \<le> 46340\<close>) or because it exceeds every \<^verbatim>\<open>int\<close>.
\<close>

lemma square_exceeds_int:
  fixes k :: int
  assumes "46341 \<le> k"
  shows "2147483647 < k * k"
  using mult_mono [of 46341 k 46341 k] assms by simp

lemma is_prime_loop_sound:
  assumes "\<not> 2 dvd sint n" and "\<not> 3 dvd sint n"
    and "5 \<le> sint i" and "sint i \<le> sint n" and "sint i mod 6 = 5"
    and "\<forall>d. 1 < d \<and> d < sint i \<longrightarrow> \<not> d dvd sint n"
    and "is_prime_loop n i = Some (Inr True)"
  shows "prime_number (sint n)"
  using assms(3-7)
proof (induction "nat (sint n - sint i)" arbitrary: i rule: less_induct)
  case less
  define k where "k = sint i"
  define m where "m = sint n"
  note prems = less.prems(1-4) [folded k_def m_def]
  note nd = assms(1,2) [folded m_def]
  have npos: "0 \<le> sint n" using less.prems by linarith
  show ?case
  proof (cases "sint (i * i) \<le> m")
    case False
    have "m < k * k"
    proof (cases "k \<le> 46340")
      case True
      then have "k * k \<le> 46340 * 46340"
        using prems(1) by (intro mult_mono) simp_all
      moreover have "0 \<le> k * k" by simp
      ultimately have "- 2147483648 \<le> sint i * sint i" "sint i * sint i < 2147483648"
        unfolding k_def by linarith+
      then have "sint (i * i) = k * k"
        unfolding k_def by (rule sint32_mult)
      with False show ?thesis by simp
    next
      case False
      then have "2147483647 < k * k" by (intro square_exceeds_int) simp
      with sint32_range [of n] show ?thesis by (simp add: m_def)
    qed
    then show ?thesis
      using prems unfolding m_def [symmetric] by (intro no_divisor_prime [of m k]) simp_all
  next
    case True
    from c_rem_positive [OF npos, of i] prems
    obtain r1 where r1: "c_rem n i = Inr r1" "r1 = 0 \<longleftrightarrow> k dvd m"
      unfolding k_def m_def by auto
    have nk: "\<not> k dvd m"
    proof
      assume "k dvd m"
      with True r1 have "is_prime_loop n i = Some (Inr False)"
        by (subst is_prime_loop.simps) (simp add: m_def)
      with less.prems(5) show False by simp
    qed
    then have "k \<noteq> m" by auto
    with prems(2) have "k < m" by simp
    with prems(3) nd have le2: "k + 2 \<le> m" by (intro wheel_step1)
    have s2: "sint (i + 2) = k + 2"
      unfolding k_def using le2 prems(1) sint32_range [of n]
      by (subst sint32_add) (simp_all add: k_def m_def)
    from c_rem_positive [OF npos, of "i + 2"] s2 prems
    obtain r2 where r2: "c_rem n (i + 2) = Inr r2" "r2 = 0 \<longleftrightarrow> k + 2 dvd m"
      unfolding m_def by auto
    have nk2: "\<not> k + 2 dvd m"
    proof
      assume "k + 2 dvd m"
      with True r1 nk r2 have "is_prime_loop n i = Some (Inr False)"
        by (subst is_prime_loop.simps) (simp add: m_def)
      with less.prems(5) show False by simp
    qed
    then have "k + 2 \<noteq> m" by auto
    with le2 have "k + 2 < m" by simp
    with prems(3) nd have le6: "k + 6 \<le> m" by (intro wheel_step2)
    have s6: "sint (i + 6) = k + 6"
      unfolding k_def using le6 prems(1) sint32_range [of n]
      by (subst sint32_add) (simp_all add: k_def m_def)
    have step: "is_prime_loop n i = is_prime_loop n (i + 6)"
      using True r1 r2 nk nk2 by (subst is_prime_loop.simps) (simp add: m_def)
    show ?thesis
    proof (rule less.hyps)
      show "nat (sint n - sint (i + 6)) < nat (sint n - sint i)"
        using s6 le6 by (simp add: k_def m_def)
      show "5 \<le> sint (i + 6)" "sint (i + 6) \<le> sint n"
        using s6 le6 prems(1) by (simp_all add: m_def)
      show "sint (i + 6) mod 6 = 5"
        using s6 prems(3) by presburger
      show "is_prime_loop n (i + 6) = Some (Inr True)"
        using step less.prems(5) by simp
      show "\<forall>d. 1 < d \<and> d < sint (i + 6) \<longrightarrow> \<not> d dvd sint n"
      proof (intro allI impI)
        fix d assume d: "1 < d \<and> d < sint (i + 6)"
        with s6 have "d < k + 6" by simp
        with prems(3) have "d < k \<or> d = k \<or> d = k + 2 \<or> 2 dvd d \<or> 3 dvd d"
          by presburger
        then consider "d < k" | "d = k" | "d = k + 2" | "2 dvd d" | "3 dvd d"
          by blast
        then show "\<not> d dvd sint n"
        proof cases
          case 1
          with d prems(4) show ?thesis by (simp add: m_def)
        next
          case 2
          with nk show ?thesis by (simp add: m_def)
        next
          case 3
          with nk2 show ?thesis by (simp add: m_def)
        next
          case 4
          with nd(1) show ?thesis unfolding m_def by (meson dvd_trans)
        next
          case 5
          with nd(2) show ?thesis unfolding m_def by (meson dvd_trans)
        qed
      qed
    qed
  qed
qed

lemma is_prime_sound:
  assumes "is_prime n = Some (Inr True)"
  shows "prime_number (sint n)"
proof -
  consider (small) "sint n \<le> 1" | (two) "sint n = 2" | (three) "sint n = 3" | (big) "3 < sint n"
    by linarith
  then show ?thesis
  proof cases
    case small
    with assms show ?thesis by (simp add: is_prime_def)
  next
    case two
    then show ?thesis by (simp add: prime_number_def)
  next
    case three
    have "{2..<3} = {2 :: int}" by auto
    with three show ?thesis by (simp add: prime_number_def)
  next
    case big
    then have npos: "0 \<le> sint n" by simp
    have two: "c_rem n 2 = Inr 0 \<longleftrightarrow> 2 dvd sint n"
      using c_rem_positive(1) [OF npos, of 2] by simp
    have three: "c_rem n 3 = Inr 0 \<longleftrightarrow> 3 dvd sint n"
      using c_rem_positive(1) [OF npos, of 3] by simp
    from assms big two three have nd: "\<not> 2 dvd sint n" "\<not> 3 dvd sint n"
      by (auto simp: is_prime_def split: if_splits)
    with assms big two three have loop: "is_prime_loop n 5 = Some (Inr True)"
      by (simp add: is_prime_def)
    have low: "\<forall>d. 1 < d \<and> d < sint (5 :: 32 word) \<longrightarrow> \<not> d dvd sint n"
    proof (intro allI impI)
      fix d :: int assume "1 < d \<and> d < sint (5 :: 32 word)"
      then have "d = 2 \<or> d = 3 \<or> d = 4" by auto
      moreover have "\<not> 4 dvd sint n" using nd(1) by presburger
      ultimately show "\<not> d dvd sint n" using nd by auto
    qed
    from nd big have "5 \<le> sint n" by presburger
    with nd low loop show ?thesis
      by (intro is_prime_loop_sound [of n 5]) simp_all
  qed
qed

lemma next_prime_returns_prime:
  "\<exists>r. next_prime n = Some (Inr r) \<and> prime_number (sint r)"
  using next_prime_returns [of n] is_prime_sound by blast

subsection \<open>The largest int is prime\<close>

text \<open>
  \<open>2147483647\<close> has no divisor between 1 and 46343, whose square exceeds it. The trial
  division is evaluated in eight parts.
\<close>

declare no_divisor_between.simps [simp del]

lemma no_divisor_between_sound:
  assumes "\<not> 2 dvd m" and "\<not> 3 dvd m"
    and "i mod 6 = 5" and "j mod 6 = 5"
    and "\<forall>d. 1 < d \<and> d < i \<longrightarrow> \<not> d dvd m"
    and "no_divisor_between m i j"
  shows "\<forall>d. 1 < d \<and> d < j \<longrightarrow> \<not> d dvd m"
  using assms(3,5,6)
proof (induction "nat (j - i)" arbitrary: i rule: less_induct)
  case less
  show ?case
  proof (cases "i < j")
    case False
    with less.prems(2) show ?thesis by auto
  next
    case True
    with less.prems(3) have nd: "\<not> i dvd m" "\<not> (i + 2) dvd m"
      and rest: "no_divisor_between m (i + 6) j"
      by (subst (asm) no_divisor_between.simps, simp split: if_splits)+
    from True less.prems(1) assms(4) have le: "i + 6 \<le> j" by presburger
    show ?thesis
    proof (rule less.hyps [of "i + 6"])
      show "nat (j - (i + 6)) < nat (j - i)" using True by simp
      show "(i + 6) mod 6 = 5" using less.prems(1) by presburger
      show "no_divisor_between m (i + 6) j" by fact
      show "\<forall>d. 1 < d \<and> d < i + 6 \<longrightarrow> \<not> d dvd m"
      proof (intro allI impI)
        fix d assume d: "1 < d \<and> d < i + 6"
        with less.prems(1) have "d < i \<or> d = i \<or> d = i + 2 \<or> 2 dvd d \<or> 3 dvd d"
          by presburger
        then consider "d < i" | "d = i" | "d = i + 2" | "2 dvd d" | "3 dvd d"
          by blast
        then show "\<not> d dvd m"
        proof cases
          case 1
          with d less.prems(2) show ?thesis by simp
        next
          case 2
          with nd show ?thesis by simp
        next
          case 3
          with nd show ?thesis by simp
        next
          case 4
          with assms(1) show ?thesis by (meson dvd_trans)
        next
          case 5
          with assms(2) show ?thesis by (meson dvd_trans)
        qed
      qed
    qed
  qed
qed

lemma int_max_chunk1: "no_divisor_between 2147483647 5 5795" by code_simp
lemma int_max_chunk2: "no_divisor_between 2147483647 5795 11585" by code_simp
lemma int_max_chunk3: "no_divisor_between 2147483647 11585 17375" by code_simp
lemma int_max_chunk4: "no_divisor_between 2147483647 17375 23165" by code_simp
lemma int_max_chunk5: "no_divisor_between 2147483647 23165 28955" by code_simp
lemma int_max_chunk6: "no_divisor_between 2147483647 28955 34745" by code_simp
lemma int_max_chunk7: "no_divisor_between 2147483647 34745 40535" by code_simp
lemma int_max_chunk8: "no_divisor_between 2147483647 40535 46343" by code_simp

lemma int_max_prime: "prime_number 2147483647"
proof -
  have two: "\<not> 2 dvd (2147483647 :: int)" and three: "\<not> 3 dvd (2147483647 :: int)"
    by presburger+
  have "\<forall>d :: int. 1 < d \<and> d < 5 \<longrightarrow> \<not> d dvd 2147483647"
  proof (intro allI impI)
    fix d :: int assume "1 < d \<and> d < 5"
    then have "d = 2 \<or> d = 3 \<or> d = 4" by auto
    then show "\<not> d dvd 2147483647" by presburger
  qed
  note no_divisor_between_sound [OF two three _ _ this int_max_chunk1]
  then have "\<forall>d :: int. 1 < d \<and> d < 5795 \<longrightarrow> \<not> d dvd 2147483647" by simp
  note no_divisor_between_sound [OF two three _ _ this int_max_chunk2]
  then have "\<forall>d :: int. 1 < d \<and> d < 11585 \<longrightarrow> \<not> d dvd 2147483647" by simp
  note no_divisor_between_sound [OF two three _ _ this int_max_chunk3]
  then have "\<forall>d :: int. 1 < d \<and> d < 17375 \<longrightarrow> \<not> d dvd 2147483647" by simp
  note no_divisor_between_sound [OF two three _ _ this int_max_chunk4]
  then have "\<forall>d :: int. 1 < d \<and> d < 23165 \<longrightarrow> \<not> d dvd 2147483647" by simp
  note no_divisor_between_sound [OF two three _ _ this int_max_chunk5]
  then have "\<forall>d :: int. 1 < d \<and> d < 28955 \<longrightarrow> \<not> d dvd 2147483647" by simp
  note no_divisor_between_sound [OF two three _ _ this int_max_chunk6]
  then have "\<forall>d :: int. 1 < d \<and> d < 34745 \<longrightarrow> \<not> d dvd 2147483647" by simp
  note no_divisor_between_sound [OF two three _ _ this int_max_chunk7]
  then have "\<forall>d :: int. 1 < d \<and> d < 40535 \<longrightarrow> \<not> d dvd 2147483647" by simp
  note no_divisor_between_sound [OF two three _ _ this int_max_chunk8]
  then have "\<forall>d :: int. 1 < d \<and> d < 46343 \<longrightarrow> \<not> d dvd 2147483647" by simp
  then show ?thesis
    by (intro no_divisor_prime [of 2147483647 46343]) simp_all
qed

subsection \<open>is\_prime rejects the largest int\<close>

text \<open>
  \<open>is_prime\<close> answers \<open>true\<close> from its loop only by leaving it with \<^verbatim>\<open>i * i > n\<close>. For
  \<open>n = 2147483647\<close> no 32-bit value of \<^verbatim>\<open>i * i\<close> is greater than \<open>n\<close>, so the loop can
  only end with \<open>false\<close>; it does when \<open>i + 2\<close> reaches \<open>n\<close>.
\<close>

lemma is_prime_loop_true_exit_raw:
  assumes "is_prime_loop n i = Some y"
  shows "y = Inr True \<longrightarrow> (\<exists>j :: 32 word. \<not> sint (j * j) \<le> sint n)"
proof (rule is_prime_loop.raw_induct
    [where P = "\<lambda>n i y. y = Inr True \<longrightarrow> (\<exists>j :: 32 word. \<not> sint (j * j) \<le> sint n)", OF _ assms])
  fix loop :: "32 word \<Rightarrow> 32 word \<Rightarrow> (arith_error + bool) option"
    and n i :: "32 word" and y :: "arith_error + bool"
  assume IH: "\<And>n i y. loop n i = Some y \<Longrightarrow>
      y = Inr True \<longrightarrow> (\<exists>j :: 32 word. \<not> sint (j * j) \<le> sint n)"
    and body: "(if sint (i * i) \<le> sint n
      then case c_rem n i of Inl e \<Rightarrow> Some (Inl e)
           | Inr r1 \<Rightarrow>
               if r1 = 0 then Some (Inr False)
               else case c_rem n (i + 2) of Inl e \<Rightarrow> Some (Inl e)
                    | Inr r2 \<Rightarrow>
                        if r2 = 0 then Some (Inr False)
                        else loop n (i + 6)
      else Some (Inr True)) = Some y"
  show "y = Inr True \<longrightarrow> (\<exists>j :: 32 word. \<not> sint (j * j) \<le> sint n)"
  proof (cases "sint (i * i) \<le> sint n")
    case False
    then show ?thesis by blast
  next
    case True
    show ?thesis
    proof
      assume "y = Inr True"
      with True body have "loop n (i + 6) = Some (Inr True)"
        by (auto split: sum.splits if_splits)
      with IH show "\<exists>j :: 32 word. \<not> sint (j * j) \<le> sint n" by blast
    qed
  qed
qed

lemma is_prime_loop_true_exit:
  assumes "is_prime_loop n i = Some (Inr True)"
  shows "\<exists>j :: 32 word. \<not> sint (j * j) \<le> sint n"
  using is_prime_loop_true_exit_raw [OF assms] by simp

lemma is_prime_int_max: "is_prime 2147483647 = Some (Inr False)"
proof -
  obtain b where b: "is_prime 2147483647 = Some (Inr b)"
    using is_prime_returns by blast
  have "\<not> b"
  proof
    assume b
    with b have "is_prime_loop 2147483647 5 = Some (Inr True)"
      by (simp add: is_prime_def split: if_splits)
    then obtain j :: "32 word" where "\<not> sint (j * j) \<le> sint (2147483647 :: 32 word)"
      using is_prime_loop_true_exit by blast
    with sint32_range [of "j * j"] show False by simp
  qed
  with b show ?thesis by simp
qed

lemma next_prime_below_int_max: "next_prime 2147483646 = Some (Inr 2)"
proof -
  have "sint (2147483647 + 1 :: 32 word) \<le> 2" by simp
  then have "next_prime_loop (2147483647 + 1) = Some (Inr 2)"
    by (rule next_prime_loop_from_below)
  then have "next_prime_loop 2147483647 = Some (Inr 2)"
    using is_prime_int_max by (subst next_prime_loop.simps) simp
  then show ?thesis by (simp add: next_prime_def)
qed

lemma next_prime_int_max: "next_prime 2147483647 = Some (Inr 2)"
proof -
  have "sint (2147483647 + 1 :: 32 word) \<le> 2" by simp
  then have "next_prime_loop (2147483647 + 1) = Some (Inr 2)"
    by (rule next_prime_loop_from_below)
  then show ?thesis by (simp add: next_prime_def)
qed

subsection \<open>binary\_search\_recursive inside the array\<close>

lemma binary_search_loop_in_bounds:
  assumes "0 \<le> left" and "right < int (length arr)"
  shows "\<exists>r. binary_search_loop arr target left right = Inr r"
  using assms
proof (induction "nat (right - left + 1)" arbitrary: left right rule: less_induct)
  case less
  show ?case
  proof (cases "left \<le> right")
    case False
    then show ?thesis by (subst binary_search_loop.simps) simp
  next
    case True
    define mid where "mid = left + (right - left) sdiv 2"
    from True have mid: "left \<le> mid" "mid \<le> right"
      unfolding mid_def by (rule bs_mid_bounds)+
    with less.prems have inb: "0 \<le> mid" "nat mid < length arr" by linarith+
    then have rd: "c_read arr mid = Inr (arr ! nat mid)"
      by (simp add: c_read_def)
    have up: "\<exists>r. binary_search_loop arr target (mid + 1) right = Inr r"
      using mid True inb less.prems by (intro less.hyps) linarith+
    have down: "\<exists>r. binary_search_loop arr target left (mid - 1) = Inr r"
      using mid True inb less.prems by (intro less.hyps) linarith+
    from up down show ?thesis
      using True rd by (subst binary_search_loop.simps) (auto simp: mid_def [symmetric])
  qed
qed

lemma binary_search_recursive_in_bounds:
  assumes "0 \<le> left" and "right < int (length arr)"
  shows "\<exists>r. binary_search_recursive arr left right target = Some (Inr r)"
  using binary_search_loop_in_bounds [OF assms] by (simp add: binary_search_recursive_eq_loop)

text \<open>
  C7. The claim that the loop in \<open>next_prime\<close> reaches a prime greater than \<open>n\<close> for every
  input \<open>n\<close> fails in the code at \<open>n = 2147483646\<close>. The prime \<open>2147483647\<close> is greater
  and is an \<^verbatim>\<open>int\<close>, but \<open>is_prime\<close> rejects it: \<^verbatim>\<open>i * i\<close> overflows from \<open>i = 46343\<close> on
  and the test \<^verbatim>\<open>i * i <= n\<close> never fails. The loop in \<open>next_prime\<close> goes on,
  \<^verbatim>\<open>candidate++\<close> wraps to the least \<^verbatim>\<open>int\<close>, and the call returns 2, which is not
  greater than \<open>n\<close>.
\<close>

theorem next_prime_overflow:
  "is_prime 2147483647 = Some (Inr False) \<and>
   next_prime 2147483646 = Some (Inr 2) \<and>
   \<not> sint (2147483646 :: 32 word) < sint (2 :: 32 word)"
  using is_prime_int_max next_prime_below_int_max by simp

section \<open>Properties of divide\<close>

text \<open>
  C9. \<open>divide\<close> is total: for every pair of \<^verbatim>\<open>int\<close>s it returns a double and never the
  error of a division by zero; the result is \<^verbatim>\<open>(double)a / b\<close> when \<open>b\<close> is not zero and
  \<open>0.0\<close> when \<open>b\<close> is zero.
\<close>

theorem divide_total:
  "divide ops a b = Inr (if b = 0 then zero ops else quotient ops (from_int ops a) (from_int ops b))"
  by (simp add: divide_def double_div_def)

end
